theory Spec2Isabelle
  imports Main "HOL-Library.Word"
begin

unbundle bit_operations_syntax

section \<open>The CHIP-8 machine of main.cpp\<close>

text \<open>
  A shallow embedding of \<^verbatim>\<open>struct Chip8\<close>: its fields, \<^verbatim>\<open>decode_instruction\<close>,
  \<^verbatim>\<open>execute_cycle\<close> and \<^verbatim>\<open>read_program_to_mem\<close>. The C++ arrays are lists
  of the declared extent. The code checks no index: where it reads or writes an array
  outside its extent, which C++ leaves undefined, the model stops with
  \<open>Undefined_Behaviour\<close>. That is a mark of the model, not a value the program returns
  or reports.
\<close>

type_synonym u8 = "8 word"
type_synonym u16 = "16 word"
type_synonym u64 = "64 word"

definition WIDTH :: nat where
  "WIDTH = 64"

definition HEIGHT :: nat where
  "HEIGHT = 32"

definition fonts_offset :: nat where
  "fonts_offset = 5"

definition fonts :: "u8 list" where
  "fonts =
    [0xF0, 0x90, 0x90, 0x90, 0xF0,
     0x20, 0x60, 0x20, 0x20, 0x70,
     0xF0, 0x10, 0xF0, 0x80, 0xF0,
     0xF0, 0x10, 0xF0, 0x10, 0xF0,
     0x90, 0x90, 0xF0, 0x10, 0x10,
     0xF0, 0x80, 0xF0, 0x10, 0xF0,
     0xF0, 0x80, 0xF0, 0x90, 0xF0,
     0xF0, 0x10, 0x20, 0x40, 0x40,
     0xF0, 0x90, 0xF0, 0x90, 0xF0,
     0xF0, 0x90, 0xF0, 0x10, 0xF0,
     0xF0, 0x90, 0xF0, 0x90, 0x90,
     0xE0, 0x90, 0xE0, 0x90, 0xE0,
     0xF0, 0x80, 0x80, 0x80, 0xF0,
     0xE0, 0x90, 0x90, 0x90, 0xE0,
     0xF0, 0x80, 0xF0, 0x80, 0xF0,
     0xF0, 0x80, 0xF0, 0x80, 0x80]"

record chip8 =
  mem :: "u8 list"
  pixels :: "u8 list list"
  v_reg :: "u8 list"
  delay_timer :: u8
  sound_timer :: u8
  keys :: "u8 list"
  sp :: u8
  stack :: "u16 list"
  pc :: u16
  i_addr_reg :: u16
  program_size :: u16
  cycle_count :: u64

text \<open>The extents of the arrays: \<^verbatim>\<open>mem[4096]\<close>, \<^verbatim>\<open>pixels[WIDTH][HEIGHT]\<close>,
  \<^verbatim>\<open>v_reg[16]\<close>, \<^verbatim>\<open>keys[16]\<close>, \<^verbatim>\<open>stack[16]\<close>.\<close>

definition chip8_wf :: "chip8 \<Rightarrow> bool" where
  "chip8_wf s \<longleftrightarrow>
     length (mem s) = 4096 \<and>
     length (pixels s) = WIDTH \<and> (\<forall>col \<in> set (pixels s). length col = HEIGHT) \<and>
     length (v_reg s) = 16 \<and> length (keys s) = 16 \<and> length (stack s) = 16"

text \<open>The default member initialisers of \<^verbatim>\<open>struct Chip8\<close>.\<close>

definition fresh_chip8 :: chip8 where
  "fresh_chip8 =
     \<lparr>mem = replicate 4096 0,
      pixels = replicate WIDTH (replicate HEIGHT 0),
      v_reg = replicate 16 0,
      delay_timer = 0,
      sound_timer = 0,
      keys = replicate 16 0,
      sp = 0,
      stack = replicate 16 0,
      pc = 0x200,
      i_addr_reg = 0,
      program_size = 0,
      cycle_count = 0\<rparr>"

text \<open>
  What a call can end in besides returning: the failed \<^verbatim>\<open>assert(0)\<close> that
  \<^verbatim>\<open>NOT_REACHED()\<close> is in a \<^verbatim>\<open>DEBUG_MODE\<close> build (it is empty otherwise), and
  the unchecked access to an array outside its extent.
\<close>

datatype fault = Assertion_Failed | Undefined_Behaviour

definition NOT_REACHED :: "bool \<Rightarrow> chip8 \<Rightarrow> fault + chip8" where
  "NOT_REACHED debug_mode s = (if debug_mode then Inl Assertion_Failed else Inr s)"

text \<open>\<^verbatim>\<open>((opcode1 & 0x0F) << 8) | opcode2\<close>\<close>

definition nnn :: "u8 \<Rightarrow> u8 \<Rightarrow> u16" where
  "nnn opcode1 opcode2 = push_bit 8 (ucast (opcode1 AND 0x0F)) OR ucast opcode2"

definition bool_u8 :: "bool \<Rightarrow> u8" where
  "bool_u8 b = (if b then 1 else 0)"

subsection \<open>The sprite draw, case 0xD\<close>

text \<open>One pass of the body of the inner loop, at row \<open>i\<close> and column \<open>j\<close>.\<close>

definition draw_pixel :: "u8 \<Rightarrow> u8 \<Rightarrow> nat \<Rightarrow> nat \<Rightarrow> u8 \<Rightarrow> chip8 \<Rightarrow> chip8" where
  "draw_pixel x y i j sprite_bits s =
     (let current_pixel = drop_bit 7 sprite_bits;
          c = (j + unat x) mod WIDTH;
          r = (i + unat y) mod HEIGHT;
          old_pixel = pixels s ! c ! r;
          display_pixel = current_pixel XOR old_pixel;
          s1 = s\<lparr>pixels := (pixels s)[c := (pixels s ! c)[r := display_pixel]]\<rparr>
      in if old_pixel = 1 \<and> display_pixel = 0
         then s1\<lparr>v_reg := (v_reg s1)[0x0F := 1]\<rparr> else s1)"

text \<open>\<^verbatim>\<open>for (u8 j = 0; j < 8; ++j)\<close>, the sprite byte shifted left once per pass.\<close>

function draw_cols :: "u8 \<Rightarrow> u8 \<Rightarrow> nat \<Rightarrow> nat \<Rightarrow> u8 \<Rightarrow> chip8 \<Rightarrow> chip8" where
  "draw_cols x y i j sprite_bits s =
     (if j < 8
      then draw_cols x y i (j + 1) (push_bit 1 sprite_bits) (draw_pixel x y i j sprite_bits s)
      else s)"
  by pat_completeness auto
termination
  by (relation "measure (\<lambda>(x, y, i, j, sprite_bits, s). 8 - j)") auto

text \<open>\<^verbatim>\<open>for (u8 i = 0; i < pixel_height; ++i)\<close>, reading \<^verbatim>\<open>mem[i_addr_reg + i]\<close>.\<close>

function draw_rows :: "u8 \<Rightarrow> u8 \<Rightarrow> nat \<Rightarrow> nat \<Rightarrow> chip8 \<Rightarrow> fault + chip8" where
  "draw_rows x y pixel_height i s =
     (if i < pixel_height
      then (if unat (i_addr_reg s) + i < 4096
            then draw_rows x y pixel_height (i + 1)
                   (draw_cols x y i 0 (mem s ! (unat (i_addr_reg s) + i)) s)
            else Inl Undefined_Behaviour)
      else Inr s)"
  by pat_completeness auto
termination
  by (relation "measure (\<lambda>(x, y, pixel_height, i, s). pixel_height - i)") auto

definition draw :: "u8 \<Rightarrow> u8 \<Rightarrow> chip8 \<Rightarrow> fault + chip8" where
  "draw opcode1 opcode2 s =
     (let x = v_reg s ! unat (opcode1 AND 0x0F);
          y = v_reg s ! unat (drop_bit 4 opcode2);
          pixel_height = unat (opcode2 AND 0x0F)
      in case draw_rows x y pixel_height 0 (s\<lparr>v_reg := (v_reg s)[0x0F := 0]\<rparr>) of
           Inl e \<Rightarrow> Inl e
         | Inr s' \<Rightarrow> Inr (s'\<lparr>pc := pc s' + 2\<rparr>))"

subsection \<open>The other loops of the switch\<close>

text \<open>Case 0xF, 0x0A: \<^verbatim>\<open>for (u8 i = 0; i < sizeof(keys); ++i)\<close>, left at the first
  key that is down.\<close>

function get_key :: "nat \<Rightarrow> nat \<Rightarrow> chip8 \<Rightarrow> chip8" where
  "get_key x i s =
     (if i < 16
      then (if keys s ! i \<noteq> 0
            then s\<lparr>v_reg := (v_reg s)[x := 1], pc := pc s + 2\<rparr>
            else get_key x (i + 1) s)
      else s)"
  by pat_completeness auto
termination
  by (relation "measure (\<lambda>(x, i, s). 16 - i)") auto

text \<open>Case 0xF, 0x55: \<^verbatim>\<open>for (u8 i = 0; i <= x; ++i) mem[i_addr_reg + i] = v_reg[i]\<close>.\<close>

function reg_dump :: "nat \<Rightarrow> nat \<Rightarrow> chip8 \<Rightarrow> fault + chip8" where
  "reg_dump x i s =
     (if i \<le> x
      then (if unat (i_addr_reg s) + i < 4096
            then reg_dump x (i + 1)
                   (s\<lparr>mem := (mem s)[unat (i_addr_reg s) + i := v_reg s ! i]\<rparr>)
            else Inl Undefined_Behaviour)
      else Inr s)"
  by pat_completeness auto
termination
  by (relation "measure (\<lambda>(x, i, s). Suc x - i)") auto

text \<open>Case 0xF, 0x65: \<^verbatim>\<open>for (u8 i = 0; i <= x; ++i) v_reg[i] = mem[i_addr_reg + i]\<close>.\<close>

function reg_load :: "nat \<Rightarrow> nat \<Rightarrow> chip8 \<Rightarrow> fault + chip8" where
  "reg_load x i s =
     (if i \<le> x
      then (if unat (i_addr_reg s) + i < 4096
            then reg_load x (i + 1)
                   (s\<lparr>v_reg := (v_reg s)[i := mem s ! (unat (i_addr_reg s) + i)]\<rparr>)
            else Inl Undefined_Behaviour)
      else Inr s)"
  by pat_completeness auto
termination
  by (relation "measure (\<lambda>(x, i, s). Suc x - i)") auto

declare draw_cols.simps [simp del] draw_rows.simps [simp del] get_key.simps [simp del]
  reg_dump.simps [simp del] reg_load.simps [simp del]

subsection \<open>The cases of the switch\<close>

text \<open>\<^verbatim>\<open>pc += 2\<close>\<close>

definition next_pc :: "chip8 \<Rightarrow> chip8" where
  "next_pc s = s\<lparr>pc := pc s + 2\<rparr>"

text \<open>The conditional skips: \<^verbatim>\<open>if (cond) { pc += 2; } pc += 2;\<close>\<close>

definition skip_if :: "bool \<Rightarrow> chip8 \<Rightarrow> chip8" where
  "skip_if cond s = next_pc (if cond then next_pc s else s)"

definition case_0 :: "bool \<Rightarrow> u8 \<Rightarrow> u8 \<Rightarrow> chip8 \<Rightarrow> fault + chip8" where
  "case_0 debug_mode opcode1 opcode2 s =
     (if opcode1 = 0x00 \<and> opcode2 = 0xE0
      then Inr (next_pc (s\<lparr>pixels := replicate WIDTH (replicate HEIGHT 0)\<rparr>))
      else if opcode1 = 0x00 \<and> opcode2 = 0xEE
      then (let sp' = sp s - 1
            in if unat sp' < 16
               then Inr (s\<lparr>sp := sp', pc := stack s ! unat sp'\<rparr>)
               else Inl Undefined_Behaviour)
      else NOT_REACHED debug_mode s)"

definition case_2 :: "u8 \<Rightarrow> u8 \<Rightarrow> chip8 \<Rightarrow> fault + chip8" where
  "case_2 opcode1 opcode2 s =
     (if unat (sp s) < 16
      then Inr (s\<lparr>stack := (stack s)[unat (sp s) := pc s + 2],
                  sp := sp s + 1,
                  pc := nnn opcode1 opcode2\<rparr>)
      else Inl Undefined_Behaviour)"

definition set_vx :: "nat \<Rightarrow> u8 \<Rightarrow> chip8 \<Rightarrow> chip8" where
  "set_vx x v s = s\<lparr>v_reg := (v_reg s)[x := v]\<rparr>"

definition case_8 :: "bool \<Rightarrow> u8 \<Rightarrow> u8 \<Rightarrow> chip8 \<Rightarrow> fault + chip8" where
  "case_8 debug_mode opcode1 opcode2 s =
     (let x = unat (opcode1 AND 0x0F);
          y = unat (drop_bit 4 opcode2);
          n = opcode2 AND 0x0F;
          v = v_reg s
      in if n = 0x00 then Inr (next_pc (set_vx x (v ! y) s))
         else if n = 0x01 then Inr (next_pc (set_vx x (v ! x OR v ! y) s))
         else if n = 0x02 then Inr (next_pc (set_vx x (v ! x AND v ! y) s))
         else if n = 0x03 then Inr (next_pc (set_vx x (v ! x XOR v ! y) s))
         else if n = 0x04 then
           (let res = (ucast (v ! x) + ucast (v ! y) :: u16);
                s1 = set_vx 0x0F (bool_u8 (res > 0xFF)) s
            in Inr (next_pc (set_vx x (ucast (res AND 0xFF)) s1)))
         else if n = 0x05 then
           (let s1 = set_vx 0x0F (bool_u8 (v ! x > v ! y)) s
            in Inr (next_pc (set_vx x (v_reg s1 ! x - v_reg s1 ! y) s1)))
         else if n = 0x06 then
           (let s1 = set_vx 0x0F (v ! x AND 0x01) s
            in Inr (next_pc (set_vx x (drop_bit 1 (v_reg s1 ! x)) s1)))
         else if n = 0x07 then
           (let s1 = set_vx 0x0F (bool_u8 (v ! y > v ! x)) s
            in Inr (next_pc (set_vx x (v_reg s1 ! y - v_reg s1 ! x) s1)))
         else if n = 0x0E then
           (let s1 = set_vx 0x0F (bool_u8 (v ! x AND 0x80 > 1)) s
            in Inr (next_pc (set_vx x (push_bit 1 (v_reg s1 ! x)) s1)))
         else NOT_REACHED debug_mode s)"

definition case_E :: "bool \<Rightarrow> u8 \<Rightarrow> u8 \<Rightarrow> chip8 \<Rightarrow> fault + chip8" where
  "case_E debug_mode opcode1 opcode2 s =
     (let x = unat (opcode1 AND 0x0F);
          k = unat (v_reg s ! x)
      in if opcode2 = 0x9E
         then (if k < 16 then Inr (skip_if (keys s ! k = 1) s) else Inl Undefined_Behaviour)
         else if opcode2 = 0xA1
         then (if k < 16 then Inr (skip_if (keys s ! k = 0) s) else Inl Undefined_Behaviour)
         else NOT_REACHED debug_mode s)"

definition bcd :: "nat \<Rightarrow> chip8 \<Rightarrow> fault + chip8" where
  "bcd x s =
     (let val = v_reg s ! x;
          a = unat (i_addr_reg s)
      in if a + 2 < 4096
         then Inr (next_pc (s\<lparr>mem := (mem s)[a := val div 100,
                                               a + 1 := (val mod 100) div 10,
                                               a + 2 := val mod 10]\<rparr>))
         else Inl Undefined_Behaviour)"

definition case_F :: "bool \<Rightarrow> u8 \<Rightarrow> u8 \<Rightarrow> chip8 \<Rightarrow> fault + chip8" where
  "case_F debug_mode opcode1 opcode2 s =
     (let x = unat (opcode1 AND 0x0F)
      in if opcode2 = 0x07 then Inr (next_pc (set_vx x (delay_timer s) s))
         else if opcode2 = 0x0A then Inr (get_key x 0 s)
         else if opcode2 = 0x15 then Inr (next_pc (s\<lparr>delay_timer := v_reg s ! x\<rparr>))
         else if opcode2 = 0x18 then Inr (next_pc (s\<lparr>sound_timer := v_reg s ! x\<rparr>))
         else if opcode2 = 0x1E
         then Inr (next_pc (s\<lparr>i_addr_reg := i_addr_reg s + ucast (v_reg s ! x)\<rparr>))
         else if opcode2 = 0x29
         then Inr (next_pc (s\<lparr>i_addr_reg := of_nat (unat (v_reg s ! x) * fonts_offset)\<rparr>))
         else if opcode2 = 0x33 then bcd x s
         else if opcode2 = 0x55
         then (case reg_dump x 0 s of Inl e \<Rightarrow> Inl e | Inr s' \<Rightarrow> Inr (next_pc s'))
         else if opcode2 = 0x65
         then (case reg_load x 0 s of Inl e \<Rightarrow> Inl e | Inr s' \<Rightarrow> Inr (next_pc s'))
         else NOT_REACHED debug_mode s)"

subsection \<open>decode_instruction, execute_cycle, read_program_to_mem\<close>

text \<open>
  \<open>op_buffer\<close> is what the pointer \<^verbatim>\<open>&mem[pc]\<close> sees: the bytes of \<open>mem\<close> from
  \<open>pc\<close> on. \<open>rand_value\<close> is what \<^verbatim>\<open>rand()\<close> returns when case 0xC calls it; the
  generator's state is the C library's, not a field of the machine.
\<close>

fun decode_instruction :: "bool \<Rightarrow> nat \<Rightarrow> u8 list \<Rightarrow> chip8 \<Rightarrow> fault + chip8" where
  "decode_instruction debug_mode rand_value (opcode1 # opcode2 # rest) s =
     (let h = drop_bit 4 opcode1;
          x = unat (opcode1 AND 0x0F);
          y = unat (drop_bit 4 opcode2)
      in if h = 0x00 then case_0 debug_mode opcode1 opcode2 s
         else if h = 0x01 then Inr (s\<lparr>pc := nnn opcode1 opcode2\<rparr>)
         else if h = 0x02 then case_2 opcode1 opcode2 s
         else if h = 0x03 then Inr (skip_if (v_reg s ! x = opcode2) s)
         else if h = 0x04 then Inr (skip_if (v_reg s ! x \<noteq> opcode2) s)
         else if h = 0x05 then Inr (skip_if (v_reg s ! x = v_reg s ! y) s)
         else if h = 0x06 then Inr (next_pc (set_vx x opcode2 s))
         else if h = 0x07 then Inr (next_pc (set_vx x (v_reg s ! x + opcode2) s))
         else if h = 0x08 then case_8 debug_mode opcode1 opcode2 s
         else if h = 0x09 then Inr (skip_if (v_reg s ! x \<noteq> v_reg s ! y) s)
         else if h = 0x0A then Inr (next_pc (s\<lparr>i_addr_reg := nnn opcode1 opcode2\<rparr>))
         else if h = 0x0B
         then Inr (next_pc (s\<lparr>pc := ucast (v_reg s ! 0) + nnn opcode1 opcode2\<rparr>))
         else if h = 0x0C
         then Inr (next_pc (set_vx x (of_nat (rand_value mod 256) AND opcode2) s))
         else if h = 0x0D then draw opcode1 opcode2 s
         else if h = 0x0E then case_E debug_mode opcode1 opcode2 s
         else case_F debug_mode opcode1 opcode2 s)"
| "decode_instruction debug_mode rand_value op_buffer s = Inl Undefined_Behaviour"

text \<open>\<^verbatim>\<open>decode_instruction(&mem[pc]); return ++cycle_count;\<close>\<close>

definition execute_cycle :: "bool \<Rightarrow> nat \<Rightarrow> chip8 \<Rightarrow> fault + (chip8 \<times> u64)" where
  "execute_cycle debug_mode rand_value s =
     (case decode_instruction debug_mode rand_value (drop (unat (pc s)) (mem s)) s of
        Inl e \<Rightarrow> Inl e
      | Inr s' \<Rightarrow> Inr (s'\<lparr>cycle_count := cycle_count s' + 1\<rparr>, cycle_count s' + 1))"

text \<open>
  The file is \<open>None\<close> when \<^verbatim>\<open>fopen\<close> fails and its bytes otherwise.
  \<^verbatim>\<open>program_size = ftell(file)\<close> stores the length in a \<^verbatim>\<open>u16\<close>;
  \<^verbatim>\<open>fread(mem + pc, 1, program_size, file)\<close> then copies that many bytes to
  \<^verbatim>\<open>mem[0x200]\<close> onwards, with no check against the extent of \<^verbatim>\<open>mem\<close>.
\<close>

definition read_program_to_mem :: "u8 list option \<Rightarrow> chip8 \<Rightarrow> fault + (bool \<times> chip8)" where
  "read_program_to_mem file s =
     (case file of
        None \<Rightarrow> Inr (False, s)
      | Some bytes \<Rightarrow>
          (let s1 = s\<lparr>mem := fonts @ drop (length fonts) (mem s)\<rparr>;
               s2 = s1\<lparr>program_size := of_nat (length bytes)\<rparr>;
               s3 = s2\<lparr>pc := 0x200\<rparr>;
               n = unat (program_size s3);
               a = unat (pc s3)
           in if a + n \<le> 4096
              then Inr (True, s3\<lparr>mem := take a (mem s3) @ take n bytes @ drop (a + n) (mem s3)\<rparr>)
              else Inl Undefined_Behaviour))"

section \<open>Notions for the proofs\<close>

text \<open>The extent of \<^verbatim>\<open>pixels[WIDTH][HEIGHT]\<close> alone.\<close>

definition grid_ok :: "u8 list list \<Rightarrow> bool" where
  "grid_ok P \<longleftrightarrow> length P = WIDTH \<and> (\<forall>col \<in> set P. length col = HEIGHT)"

text \<open>The pixel the loop body writes at row \<open>fst p\<close> and column \<open>snd p\<close> of the sprite:
  \<^verbatim>\<open>pixels[(j + x) % WIDTH][(i + y) % HEIGHT]\<close>.\<close>

definition target :: "u8 \<Rightarrow> u8 \<Rightarrow> nat \<times> nat \<Rightarrow> nat \<times> nat" where
  "target x y p = ((snd p + unat x) mod WIDTH, (fst p + unat y) mod HEIGHT)"

text \<open>\<^verbatim>\<open>pixels[c][r]\<close>\<close>

definition pixel_at :: "chip8 \<Rightarrow> nat \<times> nat \<Rightarrow> u8" where
  "pixel_at s q = pixels s ! fst q ! snd q"

text \<open>The loop body at one position of the sprite, the shifted sprite byte given by \<open>bits\<close>.\<close>

definition plot :: "u8 \<Rightarrow> u8 \<Rightarrow> (nat \<times> nat \<Rightarrow> u8) \<Rightarrow> nat \<times> nat \<Rightarrow> chip8 \<Rightarrow> chip8" where
  "plot x y bits p s = draw_pixel x y (fst p) (snd p) (bits p) s"

text \<open>Every field but \<open>pixels\<close> and \<open>v_reg\<close>.\<close>

definition rest_of :: "chip8 \<Rightarrow> chip8" where
  "rest_of s = s\<lparr>pixels := [], v_reg := []\<rparr>"

text \<open>The test \<^verbatim>\<open>old_pixel == 1 && display_pixel == 0\<close> at one position, on the pixels of \<open>s\<close>.\<close>

definition collides :: "u8 \<Rightarrow> u8 \<Rightarrow> (nat \<times> nat \<Rightarrow> u8) \<Rightarrow> chip8 \<Rightarrow> nat \<times> nat \<Rightarrow> bool" where
  "collides x y bits s p \<longleftrightarrow>
     pixel_at s (target x y p) = 1 \<and> drop_bit 7 (bits p) XOR pixel_at s (target x y p) = 0"

text \<open>The sprite byte of row \<open>fst p\<close>, read at \<open>m[a + fst p]\<close>, after \<open>snd p\<close> left shifts.\<close>

definition row_bits :: "u8 list \<Rightarrow> nat \<Rightarrow> nat \<times> nat \<Rightarrow> u8" where
  "row_bits m a p = push_bit (snd p) (m ! (a + fst p))"

text \<open>The opcodes that reach \<^verbatim>\<open>NOT_REACHED()\<close>: the \<^verbatim>\<open>else\<close> of case 0x0 and the
  \<^verbatim>\<open>default\<close> of the inner switches of cases 0x8, 0xE and 0xF.\<close>

definition unmatched :: "u8 \<Rightarrow> u8 \<Rightarrow> bool" where
  "unmatched opcode1 opcode2 \<longleftrightarrow>
     (drop_bit 4 opcode1 = 0x00 \<and> \<not> (opcode1 = 0x00 \<and> (opcode2 = 0xE0 \<or> opcode2 = 0xEE))) \<or>
     (drop_bit 4 opcode1 = 0x08 \<and> opcode2 AND 0x0F \<notin> {0, 1, 2, 3, 4, 5, 6, 7, 0x0E}) \<or>
     (drop_bit 4 opcode1 = 0x0E \<and> opcode2 \<notin> {0x9E, 0xA1}) \<or>
     (drop_bit 4 opcode1 = 0x0F \<and> opcode2 \<notin> {0x07, 0x0A, 0x15, 0x18, 0x1E, 0x29, 0x33, 0x55, 0x65})"

text \<open>Two machines to run the draw on: a fresh one with the sprite byte \<open>0x80\<close> at
  \<open>mem[0]\<close>, and the same with every pixel lit.\<close>

definition sprite_machine :: chip8 where
  "sprite_machine = fresh_chip8\<lparr>mem := (mem fresh_chip8)[0 := 0x80]\<rparr>"

definition lit_machine :: chip8 where
  "lit_machine = sprite_machine\<lparr>pixels := replicate WIDTH (replicate HEIGHT 1)\<rparr>"

text \<open>Fresh machines with one instruction at \<open>0x200\<close>: FX0A with key 7 down, CXNN,
  5XY1, a 2NNN that calls itself, and FXFF, which no case matches.\<close>

definition key_machine :: chip8 where
  "key_machine = fresh_chip8\<lparr>mem := (mem fresh_chip8)[0x200 := 0xF3, 0x201 := 0x0A],
      keys := (keys fresh_chip8)[7 := 1]\<rparr>"

definition rand_machine :: chip8 where
  "rand_machine = fresh_chip8\<lparr>mem := (mem fresh_chip8)[0x200 := 0xC0, 0x201 := 0xFF]\<rparr>"

definition skip_machine :: chip8 where
  "skip_machine = fresh_chip8\<lparr>mem := (mem fresh_chip8)[0x200 := 0x50, 0x201 := 0x01]\<rparr>"

definition call_machine :: chip8 where
  "call_machine = fresh_chip8\<lparr>mem := (mem fresh_chip8)[0x200 := 0x22, 0x201 := 0x00]\<rparr>"

definition stray_machine :: chip8 where
  "stray_machine = fresh_chip8\<lparr>mem := (mem fresh_chip8)[0x200 := 0xF0, 0x201 := 0xFF]\<rparr>"

text \<open>What holds of the self-calling machine between its calls.\<close>

definition calling :: "chip8 \<Rightarrow> bool" where
  "calling s \<longleftrightarrow> mem s = mem call_machine \<and> pc s = 0x200 \<and> length (stack s) = 16 \<and>
     (\<forall>i<unat (sp s). stack s ! i = 0x202)"

text \<open>Consecutive calls of \<^verbatim>\<open>execute_cycle\<close>, as the loop of \<^verbatim>\<open>main\<close> makes them,
  one value of \<^verbatim>\<open>rand()\<close> for each.\<close>

fun execute_cycles :: "bool \<Rightarrow> nat list \<Rightarrow> chip8 \<Rightarrow> fault + chip8" where
  "execute_cycles debug_mode [] s = Inr s"
| "execute_cycles debug_mode (rand_value # rand_values) s =
     (case execute_cycle debug_mode rand_value s of
        Inl e \<Rightarrow> Inl e
      | Inr (s', count) \<Rightarrow> execute_cycles debug_mode rand_values s')"

section \<open>The sprite draw as a fold over the positions of the sprite\<close>

lemma grid_ok_nth: "grid_ok P \<Longrightarrow> c < WIDTH \<Longrightarrow> length (P ! c) = HEIGHT"
  by (simp add: grid_ok_def)

lemma grid_ok_update:
  "grid_ok P \<Longrightarrow> c < WIDTH \<Longrightarrow> grid_ok (P[c := (P ! c)[r := v]])"
  unfolding grid_ok_def
  by (auto dest!: subsetD[OF set_update_subset_insert])

lemma grid_update_nth:
  assumes "grid_ok P" "c0 < WIDTH" "r0 < HEIGHT" "c < WIDTH" "r < HEIGHT"
  shows "P[c0 := (P ! c0)[r0 := v]] ! c ! r = (if c = c0 \<and> r = r0 then v else P ! c ! r)"
  using assms by (auto simp: grid_ok_def nth_list_update)

lemma target_bound: "fst (target x y p) < WIDTH \<and> snd (target x y p) < HEIGHT"
  by (simp add: target_def WIDTH_def HEIGHT_def)

lemma plot_frame: "rest_of (plot x y bits p s) = rest_of s"
  by (simp add: rest_of_def plot_def draw_pixel_def Let_def)

lemma plot_grid_ok: "grid_ok (pixels s) \<Longrightarrow> grid_ok (pixels (plot x y bits p s))"
  by (simp add: plot_def draw_pixel_def Let_def grid_ok_update WIDTH_def)

lemma plot_px:
  assumes "grid_ok (pixels s)" "fst q < WIDTH" "snd q < HEIGHT"
  shows "pixel_at (plot x y bits p s) q =
    (if q = target x y p then drop_bit 7 (bits p) XOR pixel_at s q else pixel_at s q)"
proof -
  have "fst (target x y p) < WIDTH" "snd (target x y p) < HEIGHT"
    using target_bound by auto
  then show ?thesis
    using assms
    by (cases q)
      (auto simp: plot_def draw_pixel_def Let_def pixel_at_def target_def grid_update_nth)
qed

lemma plot_v_reg:
  "v_reg (plot x y bits p s) =
     (if pixel_at s (target x y p) = 1 \<and> drop_bit 7 (bits p) XOR pixel_at s (target x y p) = 0
      then (v_reg s)[0x0F := 1] else v_reg s)"
  by (auto simp: plot_def draw_pixel_def Let_def pixel_at_def target_def)

lemma fold_plot_frame: "rest_of (fold (plot x y bits) ps s) = rest_of s"
  by (induction ps arbitrary: s) (simp_all add: plot_frame)

lemma fold_plot_grid_ok:
  "grid_ok (pixels s) \<Longrightarrow> grid_ok (pixels (fold (plot x y bits) ps s))"
  by (induction ps arbitrary: s) (simp_all add: plot_grid_ok)

lemma fold_plot_px_miss:
  assumes "grid_ok (pixels s)" "fst q < WIDTH" "snd q < HEIGHT" "q \<notin> target x y ` set ps"
  shows "pixel_at (fold (plot x y bits) ps s) q = pixel_at s q"
  using assms
  by (induction ps arbitrary: s) (auto simp: plot_grid_ok plot_px)

lemma fold_plot_px_hit:
  assumes "grid_ok (pixels s)" "distinct (map (target x y) ps)" "p \<in> set ps"
  shows "pixel_at (fold (plot x y bits) ps s) (target x y p) = drop_bit 7 (bits p) XOR pixel_at s (target x y p)"
  using assms
proof (induction ps arbitrary: s)
  case Nil
  then show ?case by simp
next
  case (Cons a ps)
  have b: "fst (target x y p) < WIDTH" "snd (target x y p) < HEIGHT"
    using target_bound by auto
  have g: "grid_ok (pixels (plot x y bits a s))"
    using Cons.prems(1) by (rule plot_grid_ok)
  show ?case
  proof (cases "p \<in> set ps")
    case True
    with Cons.prems have ne: "target x y p \<noteq> target x y a" by (auto simp: image_iff)
    have "pixel_at (fold (plot x y bits) ps (plot x y bits a s)) (target x y p)
        = drop_bit 7 (bits p) XOR pixel_at (plot x y bits a s) (target x y p)"
      using g Cons.prems(2) True by (intro Cons.IH) simp_all
    with ne b Cons.prems(1) show ?thesis by (simp add: plot_px)
  next
    case False
    with Cons.prems have pa: "p = a" and "target x y a \<notin> target x y ` set ps" by auto
    then have "pixel_at (fold (plot x y bits) ps (plot x y bits a s)) (target x y p)
        = pixel_at (plot x y bits a s) (target x y p)"
      using g b by (intro fold_plot_px_miss) simp_all
    with pa b Cons.prems(1) show ?thesis by (simp add: plot_px)
  qed
qed

lemma fold_plot_v_reg:
  assumes "grid_ok (pixels s)" "distinct (map (target x y) ps)"
  shows "v_reg (fold (plot x y bits) ps s) =
     (if \<exists>p \<in> set ps. collides x y bits s p then (v_reg s)[0x0F := 1] else v_reg s)"
  using assms
proof (induction ps arbitrary: s)
  case Nil
  then show ?case by simp
next
  case (Cons a ps)
  let ?t = "plot x y bits a s"
  have g: "grid_ok (pixels ?t)"
    using Cons.prems(1) by (rule plot_grid_ok)
  have same: "collides x y bits ?t p = collides x y bits s p" if "p \<in> set ps" for p
  proof -
    from that Cons.prems(2) have "target x y p \<noteq> target x y a" by (auto simp: image_iff)
    moreover have "fst (target x y p) < WIDTH" "snd (target x y p) < HEIGHT"
      using target_bound by auto
    ultimately have "pixel_at ?t (target x y p) = pixel_at s (target x y p)"
      using Cons.prems(1) by (simp add: plot_px)
    then show ?thesis by (simp add: collides_def)
  qed
  have "v_reg (fold (plot x y bits) ps ?t) =
     (if \<exists>p \<in> set ps. collides x y bits ?t p then (v_reg ?t)[0x0F := 1] else v_reg ?t)"
    using g Cons.prems(2) by (intro Cons.IH) simp_all
  also have "(\<exists>p \<in> set ps. collides x y bits ?t p) = (\<exists>p \<in> set ps. collides x y bits s p)"
    using same by blast
  finally show ?case
    by (auto simp: plot_v_reg collides_def)
qed

lemma draw_cols_fold:
  "draw_cols x y i j b s = fold (\<lambda>k. draw_pixel x y i k (push_bit (k - j) b)) [j..<8] s"
proof (induction x y i j b s rule: draw_cols.induct)
  case (1 x y i j b s)
  show ?case
  proof (cases "j < 8")
    case True
    have pb: "push_bit (k - (j + 1)) (push_bit 1 b) = push_bit (k - j) b" if "j + 1 \<le> k" for k
    proof -
      have "k - (j + 1) + 1 = k - j" using that by simp
      then show ?thesis by (simp only: push_bit_push_bit)
    qed
    have "fold (\<lambda>k. draw_pixel x y i k (push_bit (k - (j + 1)) (push_bit 1 b))) [j + 1..<8] t
        = fold (\<lambda>k. draw_pixel x y i k (push_bit (k - j) b)) [j + 1..<8] t" for t
    proof (rule fold_cong[OF refl refl])
      fix k
      assume "k \<in> set [j + 1..<8]"
      then have "j + 1 \<le> k" by simp
      then show "draw_pixel x y i k (push_bit (k - (j + 1)) (push_bit 1 b))
          = draw_pixel x y i k (push_bit (k - j) b)"
        by (simp only: pb)
    qed
    with True 1 show ?thesis
      by (subst draw_cols.simps) (simp add: upt_conv_Cons)
  next
    case False
    then show ?thesis by (subst draw_cols.simps) simp
  qed
qed

lemma draw_cols_plot:
  "draw_cols x y i 0 (m ! (a + i)) s = fold (plot x y (row_bits m a)) (map (Pair i) [0..<8]) s"
  by (simp add: draw_cols_fold fold_map comp_def plot_def[abs_def] row_bits_def)

lemma rest_of_fields:
  assumes "rest_of t = rest_of s"
  shows "mem t = mem s" "i_addr_reg t = i_addr_reg s" "delay_timer t = delay_timer s"
    "sound_timer t = sound_timer s" "keys t = keys s" "sp t = sp s" "stack t = stack s"
    "pc t = pc s" "program_size t = program_size s" "cycle_count t = cycle_count s"
  using assms unfolding rest_of_def
  by (cases s; cases t; simp)+

lemma draw_rows_fold:
  assumes "unat (i_addr_reg s) + h \<le> 4096"
  shows "draw_rows x y h i s =
     Inr (fold (plot x y (row_bits (mem s) (unat (i_addr_reg s)))) (List.product [i..<h] [0..<8]) s)"
  using assms
proof (induction x y h i s rule: draw_rows.induct)
  case (1 x y h i s)
  let ?a = "unat (i_addr_reg s)"
  show ?case
  proof (cases "i < h")
    case True
    let ?t = "draw_cols x y i 0 (mem s ! (?a + i)) s"
    have t: "?t = fold (plot x y (row_bits (mem s) ?a)) (map (Pair i) [0..<8]) s"
      by (rule draw_cols_plot)
    then have "rest_of ?t = rest_of s" by (simp add: fold_plot_frame)
    then have same: "mem ?t = mem s" "i_addr_reg ?t = i_addr_reg s"
      by (rule rest_of_fields)+
    from True "1.prems" have inb: "?a + i < 4096" by simp
    have "draw_rows x y h (i + 1) ?t =
      Inr (fold (plot x y (row_bits (mem ?t) (unat (i_addr_reg ?t)))) (List.product [i + 1..<h] [0..<8]) ?t)"
      using True inb "1.prems" same by (intro "1.IH") simp_all
    then have "draw_rows x y h (i + 1) ?t =
      Inr (fold (plot x y (row_bits (mem s) ?a)) (List.product [i + 1..<h] [0..<8]) ?t)"
      by (simp only: same)
    with True inb t show ?thesis
      by (subst draw_rows.simps) (simp add: upt_conv_Cons)
  next
    case False
    then show ?thesis by (subst draw_rows.simps) simp
  qed
qed

lemma mod_shift_le:
  fixes a b x n :: nat
  assumes "a \<le> b" "b < n" "(a + x) mod n = (b + x) mod n"
  shows "a = b"
proof -
  have "(b + x) mod n = (a + x) mod n" using assms(3) by simp
  moreover have "a + x \<le> b + x" using assms(1) by simp
  ultimately have "n dvd (b + x) - (a + x)" by (simp add: mod_eq_dvd_iff_nat)
  then have "n dvd b - a" by simp
  moreover have "b - a < n" using assms by simp
  ultimately have "b - a = 0" using nat_dvd_not_less by blast
  with assms(1) show ?thesis by simp
qed

lemma mod_shift_inj:
  fixes a b x n :: nat
  assumes "a < n" "b < n" "(a + x) mod n = (b + x) mod n"
  shows "a = b"
proof (cases "a \<le> b")
  case True
  with assms show ?thesis by (intro mod_shift_le[of a b n x]) simp_all
next
  case False
  then have "b \<le> a" by simp
  with assms have "b = a" by (intro mod_shift_le[of b a n x]) simp_all
  then show ?thesis by simp
qed

lemma target_inj: "inj_on (target x y) ({0..<HEIGHT} \<times> {0..<WIDTH})"
proof (rule inj_onI)
  fix p q
  assume p: "p \<in> {0..<HEIGHT} \<times> {0..<WIDTH}" and q: "q \<in> {0..<HEIGHT} \<times> {0..<WIDTH}"
    and e: "target x y p = target x y q"
  from p q have "snd p < WIDTH" "snd q < WIDTH" "fst p < HEIGHT" "fst q < HEIGHT" by auto
  moreover from e have "(snd p + unat x) mod WIDTH = (snd q + unat x) mod WIDTH"
    "(fst p + unat y) mod HEIGHT = (fst q + unat y) mod HEIGHT"
    by (simp_all add: target_def)
  ultimately have "snd p = snd q" "fst p = fst q"
    by (blast intro: mod_shift_inj)+
  then show "p = q" by (simp add: prod_eq_iff)
qed

lemma footprint_distinct:
  assumes "h \<le> HEIGHT"
  shows "distinct (map (target x y) (List.product [0..<h] [0..<8]))"
proof -
  have "set (List.product [0..<h] [0..<8]) \<subseteq> {0..<HEIGHT} \<times> {0..<WIDTH}"
    using assms by (auto simp: WIDTH_def)
  then have "inj_on (target x y) (set (List.product [0..<h] [0..<8]))"
    by (rule inj_on_subset[OF target_inj])
  then show ?thesis
    by (simp add: distinct_map distinct_product)
qed

lemma low_nibble_lt: "unat ((w::u8) AND 0x0F) < 16"
proof -
  have "w AND 0x0F \<le> 0x0F" by (rule word_and_le1)
  then have "unat (w AND 0x0F) \<le> 15" by (simp add: word_le_nat_alt)
  then show ?thesis by simp
qed

lemma msb_after_shift:
  "k < 8 \<Longrightarrow> drop_bit 7 (push_bit k (b::u8)) = (if bit b (7 - k) then 1 else 0)"
  apply (rule bit_word_eqI)
  apply (auto simp: bit_simps)
  done

lemma xor_one_eq_one: "(1 XOR (w::u8) = 1) = (w = 0)"
proof
  assume h: "1 XOR w = 1"
  have "w = 1 XOR (1 XOR w)" by (simp add: xor.assoc[symmetric])
  also have "\<dots> = 1 XOR 1" using h by simp
  finally show "w = 0" by simp
next
  assume "w = 0"
  then show "1 XOR w = 1" by simp
qed

lemma xor_self_cancel: "(b::u8) XOR (b XOR w) = w"
  by (simp add: xor.assoc[symmetric])

lemma grid_eqI:
  assumes "grid_ok P" "grid_ok Q" "\<And>c r. c < WIDTH \<Longrightarrow> r < HEIGHT \<Longrightarrow> P ! c ! r = Q ! c ! r"
  shows "P = Q"
proof (rule nth_equalityI)
  show "length P = length Q" using assms by (simp add: grid_ok_def)
next
  fix c assume "c < length P"
  then have c: "c < WIDTH" using assms by (simp add: grid_ok_def)
  show "P ! c = Q ! c"
  proof (rule nth_equalityI)
    show "length (P ! c) = length (Q ! c)" using assms c by (simp add: grid_ok_nth)
  next
    fix r assume "r < length (P ! c)"
    then have "r < HEIGHT" using assms c by (simp add: grid_ok_nth)
    with c show "P ! c ! r = Q ! c ! r" by (rule assms(3))
  qed
qed

section \<open>What one DXYN does\<close>

lemma xor_one_eq_zero: "((b::u8) XOR 1 = 0) = (b = 1)"
proof
  assume h: "b XOR 1 = 0"
  have "b = (b XOR 1) XOR 1" by (simp add: xor.assoc)
  also have "\<dots> = 1" using h by simp
  finally show "b = 1" .
next
  assume "b = 1"
  then show "b XOR 1 = 0" by simp
qed

lemma rest_of_next:
  "rest_of t = rest_of s \<Longrightarrow> rest_of (t\<lparr>pc := pc t + 2\<rparr>) = rest_of (s\<lparr>pc := pc s + 2\<rparr>)"
  unfolding rest_of_def by (cases s; cases t; simp)

lemma rest_of_v_reg: "rest_of (s\<lparr>v_reg := v\<rparr>) = rest_of s"
  by (simp add: rest_of_def)

lemma chip8_wf_grid: "chip8_wf s \<Longrightarrow> grid_ok (pixels s)"
  by (simp add: chip8_wf_def grid_ok_def)

lemma draw_effect:
  fixes s :: chip8 and opcode1 opcode2 :: u8
  assumes wf: "chip8_wf s"
    and inb: "unat (i_addr_reg s) + unat (opcode2 AND 0x0F) \<le> 4096"
  defines "x \<equiv> v_reg s ! unat (opcode1 AND 0x0F)"
    and "y \<equiv> v_reg s ! unat (drop_bit 4 opcode2)"
    and "ps \<equiv> List.product [0..<unat (opcode2 AND 0x0F)] [0..<8]"
    and "bits \<equiv> row_bits (mem s) (unat (i_addr_reg s))"
  shows "\<exists>s'. draw opcode1 opcode2 s = Inr s' \<and>
     rest_of s' = rest_of (s\<lparr>pc := pc s + 2\<rparr>) \<and>
     grid_ok (pixels s') \<and>
     (\<forall>q. fst q < WIDTH \<and> snd q < HEIGHT \<and> q \<notin> target x y ` set ps \<longrightarrow>
        pixel_at s' q = pixel_at s q) \<and>
     (\<forall>p \<in> set ps.
        pixel_at s' (target x y p) = drop_bit 7 (bits p) XOR pixel_at s (target x y p)) \<and>
     v_reg s' = (v_reg s)[0x0F :=
        if \<exists>p \<in> set ps. pixel_at s (target x y p) = 1 \<and> drop_bit 7 (bits p) = 1
        then 1 else 0] \<and>
     chip8_wf s'"
proof -
  let ?s0 = "s\<lparr>v_reg := (v_reg s)[0x0F := 0]\<rparr>"
  let ?r = "fold (plot x y bits) ps ?s0"
  have g0: "grid_ok (pixels ?s0)" using wf by (simp add: chip8_wf_grid)
  have px0: "pixel_at ?s0 q = pixel_at s q" for q by (simp add: pixel_at_def)
  have "unat (opcode2 AND 0x0F) \<le> HEIGHT"
    using low_nibble_lt[of opcode2] by (simp add: HEIGHT_def)
  then have d: "distinct (map (target x y) ps)"
    unfolding ps_def by (rule footprint_distinct)
  have rows: "draw_rows x y (unat (opcode2 AND 0x0F)) 0 ?s0 = Inr ?r"
    using inb by (simp add: draw_rows_fold ps_def bits_def)
  then have run: "draw opcode1 opcode2 s = Inr (?r\<lparr>pc := pc ?r + 2\<rparr>)"
    by (simp add: draw_def x_def y_def)
  have "rest_of ?r = rest_of ?s0" by (rule fold_plot_frame)
  then have "rest_of ?r = rest_of s" by (simp add: rest_of_v_reg)
  then have fr: "rest_of (?r\<lparr>pc := pc ?r + 2\<rparr>) = rest_of (s\<lparr>pc := pc s + 2\<rparr>)"
    by (rule rest_of_next)
  have g: "grid_ok (pixels (?r\<lparr>pc := pc ?r + 2\<rparr>))"
    using g0 by (simp add: fold_plot_grid_ok)
  have miss: "pixel_at (?r\<lparr>pc := pc ?r + 2\<rparr>) q = pixel_at s q"
    if "fst q < WIDTH \<and> snd q < HEIGHT \<and> q \<notin> target x y ` set ps" for q
  proof -
    have "pixel_at ?r q = pixel_at ?s0 q"
      using g0 that by (intro fold_plot_px_miss) simp_all
    then show ?thesis by (simp add: pixel_at_def)
  qed
  have hit: "pixel_at (?r\<lparr>pc := pc ?r + 2\<rparr>) (target x y p)
      = drop_bit 7 (bits p) XOR pixel_at s (target x y p)" if "p \<in> set ps" for p
  proof -
    have "pixel_at ?r (target x y p) = drop_bit 7 (bits p) XOR pixel_at ?s0 (target x y p)"
      using g0 d that by (rule fold_plot_px_hit)
    then show ?thesis by (simp add: pixel_at_def)
  qed
  have c: "collides x y bits ?s0 p
      = (pixel_at s (target x y p) = 1 \<and> drop_bit 7 (bits p) = 1)" for p
    by (auto simp: collides_def px0 xor_one_eq_zero)
  have "v_reg ?r =
     (if \<exists>p \<in> set ps. collides x y bits ?s0 p then (v_reg ?s0)[0x0F := 1] else v_reg ?s0)"
    using g0 d by (rule fold_plot_v_reg)
  then have vf: "v_reg (?r\<lparr>pc := pc ?r + 2\<rparr>) = (v_reg s)[0x0F :=
        if \<exists>p \<in> set ps. pixel_at s (target x y p) = 1 \<and> drop_bit 7 (bits p) = 1
        then 1 else 0]"
    by (auto simp: c)
  note f = rest_of_fields[OF fr]
  have "chip8_wf (?r\<lparr>pc := pc ?r + 2\<rparr>)"
    using wf g f unfolding vf chip8_wf_def grid_ok_def by simp
  with run fr g miss hit vf show ?thesis by blast
qed

lemma decode_draw:
  "drop_bit 4 opcode1 = 0x0D \<Longrightarrow>
   decode_instruction debug_mode rand_value (opcode1 # opcode2 # rest) s = draw opcode1 opcode2 s"
  by simp

lemma ex_footprint:
  "(\<exists>p \<in> set (List.product [0..<n] [0..<8]). P p) = (\<exists>row<n. \<exists>col<8. P (row, col))"
proof
  assume "\<exists>p \<in> set (List.product [0..<n] [0..<8]). P p"
  then obtain row col where "(row, col) \<in> set (List.product [0..<n] [0..<8])" and p: "P (row, col)"
    by auto
  then have "row < n" "col < 8" by auto
  with p show "\<exists>row<n. \<exists>col<8. P (row, col)" by blast
next
  assume "\<exists>row<n. \<exists>col<8. P (row, col)"
  then obtain row col where "row < n" "col < 8" and p: "P (row, col)" by blast
  then have "(row, col) \<in> set (List.product [0..<n] [0..<8])" by simp
  with p show "\<exists>p \<in> set (List.product [0..<n] [0..<8]). P p" by blast
qed

lemma target_pair:
  "target x y (row, col) = ((col + unat x) mod WIDTH, (row + unat y) mod HEIGHT)"
  by (simp add: target_def)

lemma row_bits_msb:
  "col < 8 \<Longrightarrow> drop_bit 7 (row_bits m a (row, col)) = (if bit (m ! (a + row)) (7 - col) then 1 else 0)"
  by (simp add: row_bits_def msb_after_shift)

lemma fresh_wf: "chip8_wf fresh_chip8"
  by (simp add: chip8_wf_def fresh_chip8_def)

lemma fresh_fields:
  "v_reg fresh_chip8 = replicate 16 0" "i_addr_reg fresh_chip8 = 0"
  "pixels fresh_chip8 = replicate WIDTH (replicate HEIGHT 0)"
  "mem fresh_chip8 = replicate 4096 0" "pc fresh_chip8 = 0x200" "sp fresh_chip8 = 0"
  "keys fresh_chip8 = replicate 16 0" "stack fresh_chip8 = replicate 16 0"
  "cycle_count fresh_chip8 = 0"
  by (simp_all add: fresh_chip8_def)

lemma not_in_footprint:
  "(q \<notin> target x y ` set (List.product [0..<n] [0..<8])) =
   (\<forall>row<n. \<forall>col<8. fst q \<noteq> (col + unat x) mod WIDTH \<or> snd q \<noteq> (row + unat y) mod HEIGHT)"
  by (auto simp: target_def image_iff prod_eq_iff)

lemma draw_again:
  fixes s s1 :: chip8 and opcode1 opcode2 :: u8
  assumes wf: "chip8_wf s" and h: "drop_bit 4 opcode1 = 0x0D"
    and inb: "unat (i_addr_reg s) + unat (opcode2 AND 0x0F) \<le> 4096"
    and first: "decode_instruction debug_mode rand_value (opcode1 # opcode2 # rest) s = Inr s1"
    and vx: "v_reg s1 ! unat (opcode1 AND 0x0F) = v_reg s ! unat (opcode1 AND 0x0F)"
    and vy: "v_reg s1 ! unat (drop_bit 4 opcode2) = v_reg s ! unat (drop_bit 4 opcode2)"
  defines "x \<equiv> unat (v_reg s ! unat (opcode1 AND 0x0F))"
    and "y \<equiv> unat (v_reg s ! unat (drop_bit 4 opcode2))"
    and "n \<equiv> unat (opcode2 AND 0x0F)"
  shows "\<exists>s2. decode_instruction debug_mode rand_value (opcode1 # opcode2 # rest) s1 = Inr s2 \<and>
     pixels s2 = pixels s \<and>
     v_reg s2 ! 0x0F =
       (if \<exists>row<n. \<exists>col<8.
             bit (mem s ! (unat (i_addr_reg s) + row)) (7 - col) \<and>
             pixels s ! ((col + x) mod WIDTH) ! ((row + y) mod HEIGHT) = 0
        then 1 else 0)"
proof -
  let ?vx = "v_reg s ! unat (opcode1 AND 0x0F)"
  let ?vy = "v_reg s ! unat (drop_bit 4 opcode2)"
  let ?ps = "List.product [0..<n] [0..<8]"
  let ?bits = "row_bits (mem s) (unat (i_addr_reg s))"
  obtain t1 where run1: "draw opcode1 opcode2 s = Inr t1"
    and fr1: "rest_of t1 = rest_of (s\<lparr>pc := pc s + 2\<rparr>)"
    and miss1: "\<forall>q. fst q < WIDTH \<and> snd q < HEIGHT \<and> q \<notin> target ?vx ?vy ` set ?ps \<longrightarrow>
        pixel_at t1 q = pixel_at s q"
    and hit1: "\<forall>p \<in> set ?ps.
        pixel_at t1 (target ?vx ?vy p) = drop_bit 7 (?bits p) XOR pixel_at s (target ?vx ?vy p)"
    and wf1: "chip8_wf t1"
    using draw_effect[OF wf inb, of opcode1] unfolding n_def by blast
  from first h run1 have t1: "t1 = s1" by (simp add: decode_draw)
  note f1 = rest_of_fields[OF fr1[unfolded t1]]
  have same: "mem s1 = mem s" "i_addr_reg s1 = i_addr_reg s"
    using f1 by simp_all
  have inb1: "unat (i_addr_reg s1) + unat (opcode2 AND 0x0F) \<le> 4096"
    using inb same by simp
  obtain s2 where run2: "draw opcode1 opcode2 s1 = Inr s2"
    and g2: "grid_ok (pixels s2)"
    and miss2: "\<forall>q. fst q < WIDTH \<and> snd q < HEIGHT \<and> q \<notin> target ?vx ?vy ` set ?ps \<longrightarrow>
        pixel_at s2 q = pixel_at s1 q"
    and hit2: "\<forall>p \<in> set ?ps.
        pixel_at s2 (target ?vx ?vy p) = drop_bit 7 (?bits p) XOR pixel_at s1 (target ?vx ?vy p)"
    and vf2: "v_reg s2 = (v_reg s1)[0x0F :=
        if \<exists>p \<in> set ?ps. pixel_at s1 (target ?vx ?vy p) = 1 \<and> drop_bit 7 (?bits p) = 1
        then 1 else 0]"
    using draw_effect[OF wf1[unfolded t1] inb1, of opcode1] unfolding n_def vx vy same by blast
  have restored: "pixels s2 ! c ! r = pixels s ! c ! r" if "c < WIDTH" "r < HEIGHT" for c r
  proof (cases "(c, r) \<in> target ?vx ?vy ` set ?ps")
    case True
    then obtain p where p: "p \<in> set ?ps" and q: "(c, r) = target ?vx ?vy p" by blast
    from p hit1 have "pixel_at s1 (target ?vx ?vy p)
        = drop_bit 7 (?bits p) XOR pixel_at s (target ?vx ?vy p)"
      unfolding t1 by blast
    moreover from p hit2 have "pixel_at s2 (target ?vx ?vy p)
        = drop_bit 7 (?bits p) XOR pixel_at s1 (target ?vx ?vy p)"
      by blast
    ultimately have "pixel_at s2 (target ?vx ?vy p) = pixel_at s (target ?vx ?vy p)"
      by (simp only: xor_self_cancel)
    with q show ?thesis by (simp add: pixel_at_def flip: q)
  next
    case False
    with that miss1 miss2 have "pixel_at s2 (c, r) = pixel_at s (c, r)"
      by (simp add: t1)
    then show ?thesis by (simp add: pixel_at_def)
  qed
  have px: "pixels s2 = pixels s"
    using g2 chip8_wf_grid[OF wf] restored by (rule grid_eqI)
  have eqv: "(pixel_at s1 (target ?vx ?vy (row, col)) = 1 \<and> drop_bit 7 (?bits (row, col)) = 1) =
      (bit (mem s ! (unat (i_addr_reg s) + row)) (7 - col) \<and>
       pixels s ! ((col + x) mod WIDTH) ! ((row + y) mod HEIGHT) = 0)"
    if "row < n" "col < 8" for row col
  proof -
    from that have "(row, col) \<in> set ?ps" by simp
    with hit1 have "pixel_at s1 (target ?vx ?vy (row, col))
        = drop_bit 7 (?bits (row, col)) XOR pixel_at s (target ?vx ?vy (row, col))"
      unfolding t1 by blast
    with that show ?thesis
      by (auto simp: target_pair pixel_at_def row_bits_msb x_def y_def xor_one_eq_one
          split: if_splits)
  qed
  have "(\<exists>p \<in> set ?ps. pixel_at s1 (target ?vx ?vy p) = 1 \<and> drop_bit 7 (?bits p) = 1) =
     (\<exists>row<n. \<exists>col<8.
             bit (mem s ! (unat (i_addr_reg s) + row)) (7 - col) \<and>
             pixels s ! ((col + x) mod WIDTH) ! ((row + y) mod HEIGHT) = 0)"
    unfolding ex_footprint using eqv by blast
  moreover have "length (v_reg s1) = 16" using wf1 by (simp add: chip8_wf_def t1)
  ultimately have "v_reg s2 ! 0x0F =
       (if \<exists>row<n. \<exists>col<8.
             bit (mem s ! (unat (i_addr_reg s) + row)) (7 - col) \<and>
             pixels s ! ((col + x) mod WIDTH) ! ((row + y) mod HEIGHT) = 0
        then 1 else 0)"
    using vf2 by simp
  with run2 px h show ?thesis by (simp add: decode_draw)
qed

lemma sprite_machine_wf: "chip8_wf sprite_machine"
  using fresh_wf by (simp add: chip8_wf_def sprite_machine_def)

lemma lit_machine_wf: "chip8_wf lit_machine"
  using sprite_machine_wf by (simp add: chip8_wf_def lit_machine_def)

lemma sprite_machine_fields:
  "v_reg sprite_machine = replicate 16 0" "i_addr_reg sprite_machine = 0"
  "pixels sprite_machine = replicate WIDTH (replicate HEIGHT 0)"
  "mem sprite_machine ! 0 = 0x80" "pc sprite_machine = 0x200"
  by (simp_all add: sprite_machine_def fresh_fields)

lemma lit_machine_fields:
  "v_reg lit_machine = replicate 16 0" "i_addr_reg lit_machine = 0"
  "pixels lit_machine = replicate WIDTH (replicate HEIGHT 1)"
  "mem lit_machine ! 0 = 0x80" "pc lit_machine = 0x200"
  by (simp_all add: lit_machine_def sprite_machine_fields)

lemma opcode_D001:
  "drop_bit 4 (0xD0::u8) = 0x0D" "unat ((0xD0::u8) AND 0x0F) = 0"
  "unat (drop_bit 4 (0x01::u8)) = 0" "unat ((0x01::u8) AND 0x0F) = 1"
  by simp_all

lemma first_draw:
  assumes "chip8_wf s" "unat (i_addr_reg s) + unat ((0x01::u8) AND 0x0F) \<le> 4096"
  shows "\<exists>s1. decode_instruction False 0 [0xD0, 0x01] s = Inr s1 \<and> v_reg s1 ! 0 = v_reg s ! 0"
proof -
  obtain s1 where "draw 0xD0 0x01 s = Inr s1" and "v_reg s1 = (v_reg s)[0x0F :=
        if \<exists>p \<in> set (List.product [0..<unat ((0x01::u8) AND 0x0F)] [0..<8]).
           pixel_at s (target (v_reg s ! unat ((0xD0::u8) AND 0x0F)) (v_reg s ! unat (drop_bit 4 (0x01::u8))) p) = 1 \<and>
           drop_bit 7 (row_bits (mem s) (unat (i_addr_reg s)) p) = 1
        then 1 else 0]"
    using draw_effect[OF assms, of "0xD0"] by blast
  then have "decode_instruction False 0 [0xD0, 0x01] s = Inr s1 \<and> v_reg s1 ! 0 = v_reg s ! 0"
    by simp
  then show ?thesis by blast
qed

section \<open>Fetching and the single cases\<close>

lemma execute_cycle_at:
  assumes "drop (unat (pc s)) (mem s) = op_buffer"
  shows "execute_cycle debug_mode rand_value s =
     (case decode_instruction debug_mode rand_value op_buffer s of
        Inl e \<Rightarrow> Inl e
      | Inr s' \<Rightarrow> Inr (s'\<lparr>cycle_count := cycle_count s' + 1\<rparr>, cycle_count s' + 1))"
  using assms by (simp add: execute_cycle_def)

lemma fetch_0x200:
  assumes "pc s = 0x200" "length (mem s) = 4096" "mem s ! 0x200 = a" "mem s ! 0x201 = b"
  shows "drop (unat (pc s)) (mem s) = a # b # drop 0x202 (mem s)"
proof -
  have "drop 0x200 (mem s) = mem s ! 0x200 # drop (Suc 0x200) (mem s)"
    using assms(2) by (intro Cons_nth_drop_Suc[symmetric]) simp
  also have "drop (Suc 0x200) (mem s) = mem s ! Suc 0x200 # drop (Suc (Suc 0x200)) (mem s)"
    using assms(2) by (intro Cons_nth_drop_Suc[symmetric]) simp
  finally show ?thesis using assms(1,3,4) by simp
qed

lemma get_key_none:
  "\<forall>k<16. i \<le> k \<longrightarrow> keys s ! k = 0 \<Longrightarrow> get_key x i s = s"
  by (induction x i s rule: get_key.induct) (subst get_key.simps, auto)

lemma get_key_some:
  "\<exists>k<16. i \<le> k \<and> keys s ! k \<noteq> 0 \<Longrightarrow>
   get_key x i s = s\<lparr>v_reg := (v_reg s)[x := 1], pc := pc s + 2\<rparr>"
proof (induction x i s rule: get_key.induct)
  case (1 x i s)
  then obtain k where k: "k < 16" "i \<le> k" "keys s ! k \<noteq> 0" by blast
  show ?case
  proof (cases "keys s ! i \<noteq> 0")
    case True
    with k show ?thesis by (subst get_key.simps) simp
  next
    case False
    with k have "i \<noteq> k" by auto
    with k have "\<exists>k<16. i + 1 \<le> k \<and> keys s ! k \<noteq> 0" by (intro exI[of _ k]) simp
    with 1 False k show ?thesis by (subst get_key.simps) simp
  qed
qed

lemma get_key_poll:
  "get_key x 0 s =
     (if \<exists>k<16. keys s ! k \<noteq> 0 then s\<lparr>v_reg := (v_reg s)[x := 1], pc := pc s + 2\<rparr> else s)"
proof (cases "\<exists>k<16. keys s ! k \<noteq> 0")
  case True
  then have "get_key x 0 s = s\<lparr>v_reg := (v_reg s)[x := 1], pc := pc s + 2\<rparr>"
    by (intro get_key_some) simp
  with True show ?thesis by simp
next
  case False
  then have "get_key x 0 s = s" by (intro get_key_none) simp
  with False show ?thesis by auto
qed

lemma decode_wait_key:
  assumes "drop_bit 4 opcode1 = 0x0F" "opcode2 = 0x0A"
  shows "decode_instruction debug_mode rand_value (opcode1 # opcode2 # rest) s =
    Inr (get_key (unat (opcode1 AND 0x0F)) 0 s)"
  using assms by (simp add: case_F_def)

lemma nnn_B300: "nnn 0xB3 0x00 = 0x300"
  by (simp add: nnn_def)

lemma decode_rand_indep:
  assumes "\<forall>opcode1 opcode2 rest. op_buffer = opcode1 # opcode2 # rest \<longrightarrow>
             drop_bit 4 opcode1 \<noteq> 0x0C \<or> r1 mod 256 = r2 mod 256"
  shows "decode_instruction debug_mode r1 op_buffer s = decode_instruction debug_mode r2 op_buffer s"
proof (cases op_buffer)
  case Nil
  then show ?thesis by simp
next
  case (Cons a as)
  show ?thesis
  proof (cases as)
    case Nil
    with Cons show ?thesis by simp
  next
    case (Cons b bs)
    with \<open>op_buffer = a # as\<close> assms have "drop_bit 4 a \<noteq> 0x0C \<or> r1 mod 256 = r2 mod 256"
      by simp
    with Cons \<open>op_buffer = a # as\<close> show ?thesis by (auto simp: Let_def)
  qed
qed

lemma rand_machine_fetch:
  "drop (unat (pc rand_machine)) (mem rand_machine) = 0xC0 # 0xFF # drop 0x202 (mem rand_machine)"
  by (rule fetch_0x200) (simp_all add: rand_machine_def fresh_fields)

lemma rand_machine_step:
  "execute_cycle debug_mode r rand_machine =
     Inr (rand_machine\<lparr>v_reg := (v_reg rand_machine)[0 := of_nat (r mod 256) AND 0xFF],
                        pc := 0x202, cycle_count := 1\<rparr>, 1)"
  unfolding execute_cycle_at[OF rand_machine_fetch]
  by (simp add: next_pc_def set_vx_def rand_machine_def fresh_fields)

lemma unmatched_not_reached:
  "unmatched opcode1 opcode2 \<Longrightarrow>
   decode_instruction debug_mode rand_value (opcode1 # opcode2 # rest) s = NOT_REACHED debug_mode s"
  unfolding unmatched_def
  by (elim disjE conjE) (auto simp: case_0_def case_8_def case_E_def case_F_def Let_def)

lemma skip_if_pc: "skip_if cond s = s\<lparr>pc := pc s + (if cond then 4 else 2)\<rparr>"
  by (simp add: skip_if_def next_pc_def)

lemma skip_machine_fetch:
  "drop (unat (pc skip_machine)) (mem skip_machine) = 0x50 # 0x01 # drop 0x202 (mem skip_machine)"
  by (rule fetch_0x200) (simp_all add: skip_machine_def fresh_fields)

lemma skip_machine_step:
  "execute_cycle debug_mode rand_value skip_machine =
     Inr (skip_machine\<lparr>pc := 0x204, cycle_count := 1\<rparr>, 1)"
  unfolding execute_cycle_at[OF skip_machine_fetch]
  by (simp add: skip_if_pc skip_machine_def fresh_fields)

section \<open>Seventeen calls\<close>

lemma decode_call:
  assumes "drop_bit 4 opcode1 = 0x02"
  shows "decode_instruction debug_mode rand_value (opcode1 # opcode2 # rest) s =
     (if unat (sp s) < 16
      then Inr (s\<lparr>stack := (stack s)[unat (sp s) := pc s + 2],
                  sp := sp s + 1,
                  pc := nnn opcode1 opcode2\<rparr>)
      else Inl Undefined_Behaviour)"
  using assms by (simp add: case_2_def)

lemma calling_fetch:
  assumes "calling s"
  shows "drop (unat (pc s)) (mem s) = 0x22 # 0x00 # drop 0x202 (mem s)"
  using assms unfolding calling_def
  by (intro fetch_0x200) (simp_all add: call_machine_def fresh_fields)

lemma nnn_2200: "nnn 0x22 0x00 = 0x200"
  by (simp add: nnn_def)

lemma unat_sp_suc: "unat (w::u8) < 16 \<Longrightarrow> unat (w + 1) = Suc (unat w)"
  by (simp add: unat_word_ariths)

lemma calling_step:
  assumes "calling s" "unat (sp s) < 16"
  shows "\<exists>s'. execute_cycle debug_mode r s = Inr (s', cycle_count s + 1) \<and> calling s' \<and>
     unat (sp s') = Suc (unat (sp s)) \<and> cycle_count s' = cycle_count s + 1"
proof -
  let ?t = "s\<lparr>stack := (stack s)[unat (sp s) := pc s + 2], sp := sp s + 1, pc := nnn 0x22 0x00\<rparr>"
  have h: "drop_bit 4 (0x22::u8) = 0x02" by simp
  have run: "execute_cycle debug_mode r s = Inr (?t\<lparr>cycle_count := cycle_count s + 1\<rparr>, cycle_count s + 1)"
    unfolding execute_cycle_at[OF calling_fetch[OF assms(1)]] decode_call[OF h]
    using assms(2) by simp
  have n: "unat (sp s + 1) = Suc (unat (sp s))" using assms(2) by (rule unat_sp_suc)
  have "calling (?t\<lparr>cycle_count := cycle_count s + 1\<rparr>)"
    using assms unfolding calling_def
    by (auto simp: n nnn_2200 nth_list_update less_Suc_eq)
  with run n show ?thesis by simp
qed

lemma calling_steps:
  assumes "calling s" "unat (sp s) + n \<le> 16"
  shows "\<exists>s'. execute_cycles debug_mode (replicate n r) s = Inr s' \<and> calling s' \<and>
     unat (sp s') = unat (sp s) + n \<and> cycle_count s' = cycle_count s + of_nat n"
  using assms
proof (induction n arbitrary: s)
  case 0
  then show ?case by simp
next
  case (Suc n)
  from Suc.prems have "unat (sp s) < 16" by simp
  with Suc.prems(1) obtain t where t: "execute_cycle debug_mode r s = Inr (t, cycle_count s + 1)"
    "calling t" "unat (sp t) = Suc (unat (sp s))" "cycle_count t = cycle_count s + 1"
    using calling_step by blast
  with Suc.prems have "unat (sp t) + n \<le> 16" by simp
  with t(2) obtain s' where "execute_cycles debug_mode (replicate n r) t = Inr s'" "calling s'"
    "unat (sp s') = unat (sp t) + n" "cycle_count s' = cycle_count t + of_nat n"
    using Suc.IH by blast
  with t show ?case by simp
qed

lemma execute_cycles_append:
  "execute_cycles debug_mode (rs @ rs') s =
     (case execute_cycles debug_mode rs s of
        Inl e \<Rightarrow> Inl e
      | Inr s' \<Rightarrow> execute_cycles debug_mode rs' s')"
  by (induction rs arbitrary: s) (auto split: sum.splits)

lemma call_machine_calling: "calling call_machine"
  by (simp add: calling_def call_machine_def fresh_fields)

lemma seventeen_calls:
  "\<exists>s'. execute_cycles debug_mode (replicate 16 r) call_machine = Inr s' \<and>
     sp s' = 16 \<and> (\<forall>i<16. stack s' ! i = 0x202) \<and> pc s' = 0x200 \<and> cycle_count s' = 16 \<and>
     execute_cycle debug_mode r s' = Inl Undefined_Behaviour \<and>
     execute_cycles debug_mode (replicate 17 r) call_machine = Inl Undefined_Behaviour"
proof -
  have "unat (sp call_machine) + 16 \<le> 16" by (simp add: call_machine_def fresh_fields)
  with call_machine_calling obtain s' where
    run: "execute_cycles debug_mode (replicate 16 r) call_machine = Inr s'"
    and c: "calling s'" and n: "unat (sp s') = unat (sp call_machine) + 16"
    and cc: "cycle_count s' = cycle_count call_machine + of_nat 16"
    using calling_steps by blast
  from n have n16: "unat (sp s') = 16" by (simp add: call_machine_def fresh_fields)
  then have "of_nat (unat (sp s')) = (of_nat 16 :: u8)" by (simp only:)
  then have sp: "sp s' = 16" by simp
  have h: "drop_bit 4 (0x22::u8) = 0x02" by simp
  have last: "execute_cycle debug_mode r s' = Inl Undefined_Behaviour"
    unfolding execute_cycle_at[OF calling_fetch[OF c]] decode_call[OF h]
    using n16 by simp
  have "replicate 17 r = replicate 16 r @ [r]"
    by (simp add: replicate_append_same flip: replicate_Suc)
  then have "execute_cycles debug_mode (replicate 17 r) call_machine = Inl Undefined_Behaviour"
    using run last by (simp add: execute_cycles_append)
  moreover from c n16 have "\<forall>i<16. stack s' ! i = 0x202" "pc s' = 0x200"
    by (simp_all add: calling_def)
  moreover from cc have "cycle_count s' = 16" by (simp add: call_machine_def fresh_fields)
  ultimately show ?thesis using run sp last by blast
qed

section \<open>The loader\<close>

lemma length_fonts: "length fonts = 80"
  by (simp add: fonts_def)

lemma load_some:
  "read_program_to_mem (Some bytes) s =
     (if 0x200 + length bytes mod 65536 \<le> 4096
      then Inr (True, s\<lparr>mem := take 0x200 (fonts @ drop 80 (mem s)) @
                               take (length bytes mod 65536) bytes @
                               drop (0x200 + length bytes mod 65536) (fonts @ drop 80 (mem s)),
                       program_size := of_nat (length bytes),
                       pc := 0x200\<rparr>)
      else Inl Undefined_Behaviour)"
  by (simp add: read_program_to_mem_def Let_def length_fonts unat_of_nat)

lemma load_small:
  assumes "length (mem s) = 4096" "length bytes \<le> 4096 - 0x200"
  shows "read_program_to_mem (Some bytes) s =
     Inr (True, s\<lparr>mem := fonts @ take 432 (drop 80 (mem s)) @ bytes @
                           drop (0x200 + length bytes) (mem s),
                   program_size := of_nat (length bytes),
                   pc := 0x200\<rparr>)"
proof -
  from assms(2) have m: "length bytes mod 65536 = length bytes" by simp
  have a: "take 0x200 (fonts @ drop 80 (mem s)) = fonts @ take 432 (drop 80 (mem s))"
    by (simp add: length_fonts)
  have b: "drop (0x200 + length bytes) (fonts @ drop 80 (mem s)) = drop (0x200 + length bytes) (mem s)"
    by (simp add: length_fonts)
  show ?thesis
    unfolding load_some m a b using assms(2) by simp
qed

section \<open>The claims\<close>

text \<open>
  C1, as the code has it. \<^verbatim>\<open>execute_cycle\<close> has no error value: it returns the
  incremented cycle count whatever the opcode. An opcode 5XYN or 9XYN runs as 5XY0 or 9XY0
  for every N, so \<open>0x5001\<close> is the skip on Vx = Vy. An opcode that reaches
  \<^verbatim>\<open>NOT_REACHED()\<close> (the unmatched ones of groups 0, 8, E and F) leaves the machine
  as it is but for the cycle count in a release build, and fails \<^verbatim>\<open>assert(0)\<close> in a
  \<^verbatim>\<open>DEBUG_MODE\<close> build.
\<close>

theorem unknown_opcode_runs_on:
  assumes "drop (unat (pc s)) (mem s) = opcode1 # opcode2 # rest"
  defines "x \<equiv> unat (opcode1 AND 0x0F)" and "y \<equiv> unat (drop_bit 4 opcode2)"
  shows "(drop_bit 4 opcode1 = 0x05 \<longrightarrow>
            execute_cycle debug_mode rand_value s =
              Inr (s\<lparr>pc := pc s + (if v_reg s ! x = v_reg s ! y then 4 else 2),
                      cycle_count := cycle_count s + 1\<rparr>, cycle_count s + 1)) \<and>
         (drop_bit 4 opcode1 = 0x09 \<longrightarrow>
            execute_cycle debug_mode rand_value s =
              Inr (s\<lparr>pc := pc s + (if v_reg s ! x \<noteq> v_reg s ! y then 4 else 2),
                      cycle_count := cycle_count s + 1\<rparr>, cycle_count s + 1)) \<and>
         (unmatched opcode1 opcode2 \<longrightarrow>
            execute_cycle debug_mode rand_value s =
              (if debug_mode then Inl Assertion_Failed
               else Inr (s\<lparr>cycle_count := cycle_count s + 1\<rparr>, cycle_count s + 1)))"
proof (intro conjI impI)
  assume "drop_bit 4 opcode1 = 0x05"
  then show "execute_cycle debug_mode rand_value s =
      Inr (s\<lparr>pc := pc s + (if v_reg s ! x = v_reg s ! y then 4 else 2),
              cycle_count := cycle_count s + 1\<rparr>, cycle_count s + 1)"
    unfolding execute_cycle_at[OF assms(1)] x_def y_def by (simp add: skip_if_pc)
next
  assume "drop_bit 4 opcode1 = 0x09"
  then show "execute_cycle debug_mode rand_value s =
      Inr (s\<lparr>pc := pc s + (if v_reg s ! x \<noteq> v_reg s ! y then 4 else 2),
              cycle_count := cycle_count s + 1\<rparr>, cycle_count s + 1)"
    unfolding execute_cycle_at[OF assms(1)] x_def y_def by (simp add: skip_if_pc)
next
  assume "unmatched opcode1 opcode2"
  then have "decode_instruction debug_mode rand_value (opcode1 # opcode2 # rest) s =
      NOT_REACHED debug_mode s"
    by (rule unmatched_not_reached)
  then show "execute_cycle debug_mode rand_value s =
      (if debug_mode then Inl Assertion_Failed
       else Inr (s\<lparr>cycle_count := cycle_count s + 1\<rparr>, cycle_count s + 1))"
    unfolding execute_cycle_at[OF assms(1)]
    by (simp add: NOT_REACHED_def del: decode_instruction.simps)
qed

theorem unknown_opcode_runs_on_witness:
  "execute_cycle False 0 skip_machine = Inr (skip_machine\<lparr>pc := 0x204, cycle_count := 1\<rparr>, 1) \<and>
   execute_cycle False 0 stray_machine = Inr (stray_machine\<lparr>cycle_count := 1\<rparr>, 1) \<and>
   execute_cycle True 0 stray_machine = Inl Assertion_Failed"
proof -
  have f: "drop (unat (pc stray_machine)) (mem stray_machine) = 0xF0 # 0xFF # drop 0x202 (mem stray_machine)"
    by (rule fetch_0x200) (simp_all add: stray_machine_def fresh_fields)
  have u: "unmatched 0xF0 0xFF" by (simp add: unmatched_def)
  have h: "drop_bit 4 (0x50::u8) = 0x05" by simp
  have a: "execute_cycle False 0 skip_machine = Inr (skip_machine\<lparr>pc := 0x204, cycle_count := 1\<rparr>, 1)"
    using unknown_opcode_runs_on[OF skip_machine_fetch, of False 0] h
    by (simp add: skip_machine_def fresh_fields)
  have b: "execute_cycle False 0 stray_machine = Inr (stray_machine\<lparr>cycle_count := 1\<rparr>, 1)"
    using unknown_opcode_runs_on[OF f, of False 0] u
    by (simp add: stray_machine_def fresh_fields)
  have c: "execute_cycle True 0 stray_machine = Inl Assertion_Failed"
    using unknown_opcode_runs_on[OF f, of True 0] u by simp
  from a b c show ?thesis by simp
qed

text \<open>
  The claim fails at its own example: the step on \<open>0x5001\<close> returns the cycle count 1
  with PC moved past the next instruction (V0 = V0), in either build.
\<close>

theorem unknown_opcode_runs_on_counterexample:
  "execute_cycle False 0 skip_machine = Inr (skip_machine\<lparr>pc := 0x204, cycle_count := 1\<rparr>, 1) \<and>
   execute_cycle True 0 skip_machine = Inr (skip_machine\<lparr>pc := 0x204, cycle_count := 1\<rparr>, 1)"
  by (simp add: skip_machine_step)

text \<open>
  C2. In a machine whose arrays have their declared extents, with the \<open>n\<close> sprite bytes
  \<open>mem[I .. I+n-1]\<close> inside \<open>mem\<close>, DXYN returns, and for every row below \<open>n\<close> and
  every column below 8 the pixel at \<open>((col + Vx) mod 64, (row + Vy) mod 32)\<close> is its old
  value XOR bit \<open>7 - col\<close> of the row's byte (most significant bit first); VF ends as 1
  when some pixel of the sprite went from 1 to 0, and as 0 otherwise.
\<close>

theorem draw_sprite:
  fixes s :: chip8 and opcode1 opcode2 :: u8
  assumes "chip8_wf s" and "drop_bit 4 opcode1 = 0x0D"
    and "unat (i_addr_reg s) + unat (opcode2 AND 0x0F) \<le> 4096"
  defines "x \<equiv> unat (v_reg s ! unat (opcode1 AND 0x0F))"
    and "y \<equiv> unat (v_reg s ! unat (drop_bit 4 opcode2))"
    and "n \<equiv> unat (opcode2 AND 0x0F)"
  shows "\<exists>s'. decode_instruction debug_mode rand_value (opcode1 # opcode2 # rest) s = Inr s' \<and>
     (\<forall>row<n. \<forall>col<8.
        pixels s' ! ((col + x) mod WIDTH) ! ((row + y) mod HEIGHT) =
          (if bit (mem s ! (unat (i_addr_reg s) + row)) (7 - col) then 1 else 0) XOR
          pixels s ! ((col + x) mod WIDTH) ! ((row + y) mod HEIGHT)) \<and>
     v_reg s' ! 0x0F =
       (if \<exists>row<n. \<exists>col<8.
             pixels s ! ((col + x) mod WIDTH) ! ((row + y) mod HEIGHT) = 1 \<and>
             pixels s' ! ((col + x) mod WIDTH) ! ((row + y) mod HEIGHT) = 0
        then 1 else 0)"
proof -
  let ?vx = "v_reg s ! unat (opcode1 AND 0x0F)"
  let ?vy = "v_reg s ! unat (drop_bit 4 opcode2)"
  let ?ps = "List.product [0..<n] [0..<8]"
  let ?bits = "row_bits (mem s) (unat (i_addr_reg s))"
  obtain s' where run: "draw opcode1 opcode2 s = Inr s'"
    and hit: "\<forall>p \<in> set ?ps.
        pixel_at s' (target ?vx ?vy p) = drop_bit 7 (?bits p) XOR pixel_at s (target ?vx ?vy p)"
    and vf: "v_reg s' = (v_reg s)[0x0F :=
        if \<exists>p \<in> set ?ps. pixel_at s (target ?vx ?vy p) = 1 \<and> drop_bit 7 (?bits p) = 1
        then 1 else 0]"
    using draw_effect[OF assms(1,3), of opcode1] unfolding n_def by blast
  have px: "pixels s' ! ((col + x) mod WIDTH) ! ((row + y) mod HEIGHT) =
          (if bit (mem s ! (unat (i_addr_reg s) + row)) (7 - col) then 1 else 0) XOR
          pixels s ! ((col + x) mod WIDTH) ! ((row + y) mod HEIGHT)"
    if "row < n" "col < 8" for row col
  proof -
    from that have "(row, col) \<in> set ?ps" by simp
    with hit have "pixel_at s' (target ?vx ?vy (row, col))
        = drop_bit 7 (?bits (row, col)) XOR pixel_at s (target ?vx ?vy (row, col))"
      by blast
    with that show ?thesis
      by (simp add: target_pair pixel_at_def row_bits_msb x_def y_def)
  qed
  have eqv: "(pixel_at s (target ?vx ?vy (row, col)) = 1 \<and> drop_bit 7 (?bits (row, col)) = 1) =
      (pixels s ! ((col + x) mod WIDTH) ! ((row + y) mod HEIGHT) = 1 \<and>
       pixels s' ! ((col + x) mod WIDTH) ! ((row + y) mod HEIGHT) = 0)"
    if "row < n" "col < 8" for row col
    using px[OF that] that
    by (auto simp: target_pair pixel_at_def row_bits_msb x_def y_def xor_one_eq_zero
        split: if_splits)
  have "(\<exists>p \<in> set ?ps. pixel_at s (target ?vx ?vy p) = 1 \<and> drop_bit 7 (?bits p) = 1) =
     (\<exists>row<n. \<exists>col<8.
             pixels s ! ((col + x) mod WIDTH) ! ((row + y) mod HEIGHT) = 1 \<and>
             pixels s' ! ((col + x) mod WIDTH) ! ((row + y) mod HEIGHT) = 0)"
    unfolding ex_footprint using eqv by blast
  moreover have "length (v_reg s) = 16" using assms(1) by (simp add: chip8_wf_def)
  ultimately have "v_reg s' ! 0x0F =
       (if \<exists>row<n. \<exists>col<8.
             pixels s ! ((col + x) mod WIDTH) ! ((row + y) mod HEIGHT) = 1 \<and>
             pixels s' ! ((col + x) mod WIDTH) ! ((row + y) mod HEIGHT) = 0
        then 1 else 0)"
    using vf by simp
  with run px assms(2) show ?thesis by (simp add: decode_draw)
qed

theorem draw_sprite_witness:
  "\<exists>s'. decode_instruction False 0 [0xD0, 0x01] sprite_machine = Inr s' \<and>
     pixels s' ! 0 ! 0 = 1 \<and> pixels s' ! 1 ! 0 = 0 \<and> v_reg s' ! 0x0F = 0"
proof -
  let ?x = "unat (v_reg sprite_machine ! unat ((0xD0::u8) AND 0x0F))"
  let ?y = "unat (v_reg sprite_machine ! unat (drop_bit 4 (0x01::u8)))"
  have inb: "unat (i_addr_reg sprite_machine) + unat ((0x01::u8) AND 0x0F) \<le> 4096"
    by (simp add: sprite_machine_fields)
  obtain s' where run: "decode_instruction False 0 [0xD0, 0x01] sprite_machine = Inr s'"
    and px: "\<forall>row<unat ((0x01::u8) AND 0x0F). \<forall>col<8.
        pixels s' ! ((col + ?x) mod WIDTH) ! ((row + ?y) mod HEIGHT) =
          (if bit (mem sprite_machine ! (unat (i_addr_reg sprite_machine) + row)) (7 - col)
           then 1 else 0) XOR
          pixels sprite_machine ! ((col + ?x) mod WIDTH) ! ((row + ?y) mod HEIGHT)"
    and vf: "v_reg s' ! 0x0F =
       (if \<exists>row<unat ((0x01::u8) AND 0x0F). \<exists>col<8.
             pixels sprite_machine ! ((col + ?x) mod WIDTH) ! ((row + ?y) mod HEIGHT) = 1 \<and>
             pixels s' ! ((col + ?x) mod WIDTH) ! ((row + ?y) mod HEIGHT) = 0
        then 1 else 0)"
    using draw_sprite[OF sprite_machine_wf opcode_D001(1) inb, of False 0 "[]"] by blast
  have blank: "pixels sprite_machine ! (c mod WIDTH) ! (r mod HEIGHT) = 0" for c r
    by (simp add: sprite_machine_fields WIDTH_def HEIGHT_def)
  have bits: "bit (0x80::u8) 7" "\<not> bit (0x80::u8) 6" by simp_all
  have p0: "pixels s' ! 0 ! 0 = 1"
    using px[rule_format, of 0 0] blank[of 0 0] bits
    by (simp add: sprite_machine_fields WIDTH_def HEIGHT_def)
  have p1: "pixels s' ! 1 ! 0 = 0"
    using px[rule_format, of 0 1] blank[of 1 0] bits
    by (simp add: sprite_machine_fields WIDTH_def HEIGHT_def)
  have "v_reg s' ! 0x0F = 0"
    unfolding vf using blank by (simp add: sprite_machine_fields)
  with run p0 p1 show ?thesis by blast
qed

text \<open>
  C3 against the code: case 0xB assigns \<open>V0 + NNN\<close> to PC and then runs
  \<^verbatim>\<open>pc += 2\<close>, so BNNN leaves PC at \<open>V0 + NNN + 2\<close>; on a fresh machine B300
  ends at \<open>0x302\<close>.
\<close>

theorem jump_v0_adds_two:
  assumes "drop_bit 4 opcode1 = 0x0B"
  shows "decode_instruction debug_mode rand_value (opcode1 # opcode2 # rest) s =
     Inr (s\<lparr>pc := ucast (v_reg s ! 0) + nnn opcode1 opcode2 + 2\<rparr>)"
  using assms by (simp add: next_pc_def)

theorem jump_v0_adds_two_witness:
  "decode_instruction False 0 [0xB3, 0x00] fresh_chip8 = Inr (fresh_chip8\<lparr>pc := 0x302\<rparr>)"
proof -
  have "drop_bit 4 (0xB3::u8) = 0x0B" by simp
  then have "decode_instruction False 0 [0xB3, 0x00] fresh_chip8 =
     Inr (fresh_chip8\<lparr>pc := ucast (v_reg fresh_chip8 ! 0) + nnn 0xB3 0x00 + 2\<rparr>)"
    by (rule jump_v0_adds_two)
  then show ?thesis by (simp add: nnn_B300 fresh_fields)
qed

text \<open>
  C4, as the code has it. A 2NNN with \<open>sp < 16\<close> stores PC + 2 at \<open>stack[sp]\<close>,
  increments \<open>sp\<close> and jumps; with \<open>sp = 16\<close> it indexes \<open>stack[16]\<close>, outside
  the array, and nothing checks it. From the fresh self-calling machine 16 calls return
  with \<open>sp = 16\<close> and every stack entry \<open>0x202\<close>, and the next step is that
  out-of-bounds store.
\<close>

theorem call_is_unchecked:
  "(drop_bit 4 opcode1 = 0x02 \<longrightarrow>
      decode_instruction debug_mode rand_value (opcode1 # opcode2 # rest) s =
        (if unat (sp s) < 16
         then Inr (s\<lparr>stack := (stack s)[unat (sp s) := pc s + 2],
                     sp := sp s + 1,
                     pc := nnn opcode1 opcode2\<rparr>)
         else Inl Undefined_Behaviour)) \<and>
   (\<exists>s'. execute_cycles debug_mode (replicate 16 rand_value) call_machine = Inr s' \<and>
      sp s' = 16 \<and> (\<forall>i<16. stack s' ! i = 0x202) \<and> pc s' = 0x200 \<and> cycle_count s' = 16 \<and>
      execute_cycle debug_mode rand_value s' = Inl Undefined_Behaviour)"
  using decode_call[of opcode1 debug_mode rand_value opcode2 rest s]
    seventeen_calls[of debug_mode rand_value]
  by blast

theorem call_is_unchecked_witness:
  "decode_instruction False 0 [0x22, 0x00] fresh_chip8 =
     Inr (fresh_chip8\<lparr>stack := (stack fresh_chip8)[0 := 0x202], sp := 1, pc := 0x200\<rparr>)"
proof -
  have "drop_bit 4 (0x22::u8) = 0x02" by simp
  then have "decode_instruction False 0 [0x22, 0x00] fresh_chip8 =
        (if unat (sp fresh_chip8) < 16
         then Inr (fresh_chip8\<lparr>stack := (stack fresh_chip8)[unat (sp fresh_chip8) := pc fresh_chip8 + 2],
                     sp := sp fresh_chip8 + 1,
                     pc := nnn 0x22 0x00\<rparr>)
         else Inl Undefined_Behaviour)"
    using call_is_unchecked[of "0x22" False 0 "0x00" "[]" fresh_chip8] by blast
  then show ?thesis by (simp add: nnn_2200 fresh_fields)
qed

text \<open>
  Seventeen calls from the fresh machine end in the store outside \<open>stack\<close>, not in an
  error that \<^verbatim>\<open>execute_cycle\<close> reports.
\<close>

theorem call_is_unchecked_counterexample:
  "execute_cycles False (replicate 17 0) call_machine = Inl Undefined_Behaviour"
  using seventeen_calls[of False 0] by blast

text \<open>
  C5. FX0A returns at once. With no key down \<^verbatim>\<open>decode_instruction\<close> leaves the
  machine exactly as it was, PC included, so the step that follows fetches FX0A again
  (\<^verbatim>\<open>execute_cycle\<close> itself adds one to the cycle count, as for every opcode). With a
  key down Vx becomes the literal 1 and PC advances by 2, nothing else changes.
\<close>

theorem wait_key_polls:
  assumes "drop_bit 4 opcode1 = 0x0F" and "opcode2 = 0x0A" and "length (v_reg s) = 16"
    and "drop (unat (pc s)) (mem s) = opcode1 # opcode2 # rest"
  shows "(\<not> (\<exists>k<16. keys s ! k \<noteq> 0) \<longrightarrow>
            decode_instruction debug_mode rand_value (opcode1 # opcode2 # rest) s = Inr s \<and>
            execute_cycle debug_mode rand_value s =
              Inr (s\<lparr>cycle_count := cycle_count s + 1\<rparr>, cycle_count s + 1)) \<and>
         ((\<exists>k<16. keys s ! k \<noteq> 0) \<longrightarrow>
            (\<exists>s'. decode_instruction debug_mode rand_value (opcode1 # opcode2 # rest) s = Inr s' \<and>
                  s' = s\<lparr>v_reg := (v_reg s)[unat (opcode1 AND 0x0F) := 1], pc := pc s + 2\<rparr> \<and>
                  v_reg s' ! unat (opcode1 AND 0x0F) = 1 \<and> pc s' = pc s + 2 \<and>
                  execute_cycle debug_mode rand_value s =
                    Inr (s'\<lparr>cycle_count := cycle_count s + 1\<rparr>, cycle_count s + 1)))"
proof -
  have d: "decode_instruction debug_mode rand_value (opcode1 # opcode2 # rest) s =
      Inr (get_key (unat (opcode1 AND 0x0F)) 0 s)"
    using assms(1,2) by (rule decode_wait_key)
  show ?thesis
    unfolding execute_cycle_at[OF assms(4)] d get_key_poll
    using assms(3) low_nibble_lt[of opcode1] by auto
qed

theorem wait_key_polls_witness:
  "execute_cycle False 0 (key_machine\<lparr>keys := replicate 16 0\<rparr>) =
     Inr (key_machine\<lparr>keys := replicate 16 0, cycle_count := 1\<rparr>, 1) \<and>
   execute_cycle False 0 key_machine =
     Inr (key_machine\<lparr>v_reg := (v_reg key_machine)[3 := 1], pc := 0x202, cycle_count := 1\<rparr>, 1)"
proof -
  let ?idle = "key_machine\<lparr>keys := replicate 16 0\<rparr>"
  have op1: "drop_bit 4 (0xF3::u8) = 0x0F" "unat ((0xF3::u8) AND 0x0F) = 3" by simp_all
  have f1: "drop (unat (pc ?idle)) (mem ?idle) = 0xF3 # 0x0A # drop 0x202 (mem ?idle)"
    by (rule fetch_0x200) (simp_all add: key_machine_def fresh_fields)
  have f2: "drop (unat (pc key_machine)) (mem key_machine) = 0xF3 # 0x0A # drop 0x202 (mem key_machine)"
    by (rule fetch_0x200) (simp_all add: key_machine_def fresh_fields)
  have none: "\<not> (\<exists>k<16. keys ?idle ! k \<noteq> 0)" by simp
  have some: "\<exists>k<16. keys key_machine ! k \<noteq> 0"
    by (intro exI[of _ 7]) (simp add: key_machine_def fresh_fields)
  have "execute_cycle False 0 ?idle = Inr (?idle\<lparr>cycle_count := cycle_count ?idle + 1\<rparr>, cycle_count ?idle + 1)"
    using wait_key_polls[OF op1(1) refl _ f1, of False 0] none
    by (simp add: key_machine_def fresh_fields)
  then have a: "execute_cycle False 0 ?idle = Inr (key_machine\<lparr>keys := replicate 16 0, cycle_count := 1\<rparr>, 1)"
    by (simp add: key_machine_def fresh_fields)
  have "\<exists>s'. s' = key_machine\<lparr>v_reg := (v_reg key_machine)[unat ((0xF3::u8) AND 0x0F) := 1], pc := pc key_machine + 2\<rparr> \<and>
       execute_cycle False 0 key_machine =
         Inr (s'\<lparr>cycle_count := cycle_count key_machine + 1\<rparr>, cycle_count key_machine + 1)"
    using wait_key_polls[OF op1(1) refl _ f2, of False 0] some
    by (simp add: key_machine_def fresh_fields)
  then have b: "execute_cycle False 0 key_machine =
     Inr (key_machine\<lparr>v_reg := (v_reg key_machine)[3 := 1], pc := 0x202, cycle_count := 1\<rparr>, 1)"
    by (simp add: op1 key_machine_def fresh_fields)
  from a b show ?thesis by simp
qed

text \<open>
  C6, as the code has it. When DXYN has run and the second, identical DXYN finds Vx and
  Vy as the first one did, the second draw returns and leaves the framebuffer as it was
  before the first; VF after the second draw is 1 exactly when some set bit of the sprite
  lies on a pixel that was off before the first draw, and 0 otherwise.
\<close>

theorem draw_twice:
  fixes s s1 :: chip8 and opcode1 opcode2 :: u8
  assumes "chip8_wf s" and "drop_bit 4 opcode1 = 0x0D"
    and "unat (i_addr_reg s) + unat (opcode2 AND 0x0F) \<le> 4096"
    and "decode_instruction debug_mode rand_value (opcode1 # opcode2 # rest) s = Inr s1"
    and "v_reg s1 ! unat (opcode1 AND 0x0F) = v_reg s ! unat (opcode1 AND 0x0F)"
    and "v_reg s1 ! unat (drop_bit 4 opcode2) = v_reg s ! unat (drop_bit 4 opcode2)"
  defines "x \<equiv> unat (v_reg s ! unat (opcode1 AND 0x0F))"
    and "y \<equiv> unat (v_reg s ! unat (drop_bit 4 opcode2))"
    and "n \<equiv> unat (opcode2 AND 0x0F)"
  shows "\<exists>s2. decode_instruction debug_mode rand_value (opcode1 # opcode2 # rest) s1 = Inr s2 \<and>
     pixels s2 = pixels s \<and>
     v_reg s2 ! 0x0F =
       (if \<exists>row<n. \<exists>col<8.
             bit (mem s ! (unat (i_addr_reg s) + row)) (7 - col) \<and>
             pixels s ! ((col + x) mod WIDTH) ! ((row + y) mod HEIGHT) = 0
        then 1 else 0)"
  unfolding x_def y_def n_def using assms(1-6) by (rule draw_again)

theorem draw_twice_witness:
  "\<exists>s1 s2. decode_instruction False 0 [0xD0, 0x01] sprite_machine = Inr s1 \<and>
     decode_instruction False 0 [0xD0, 0x01] s1 = Inr s2 \<and>
     pixels s2 = pixels sprite_machine \<and> v_reg s2 ! 0x0F = 1"
proof -
  have inb: "unat (i_addr_reg sprite_machine) + unat ((0x01::u8) AND 0x0F) \<le> 4096"
    by (simp add: sprite_machine_fields)
  obtain s1 where run1: "decode_instruction False 0 [0xD0, 0x01] sprite_machine = Inr s1"
    and v0: "v_reg s1 ! 0 = v_reg sprite_machine ! 0"
    using first_draw[OF sprite_machine_wf inb] by blast
  have v0': "v_reg s1 ! unat ((0xD0::u8) AND 0x0F) = v_reg sprite_machine ! unat ((0xD0::u8) AND 0x0F)"
    "v_reg s1 ! unat (drop_bit 4 (0x01::u8)) = v_reg sprite_machine ! unat (drop_bit 4 (0x01::u8))"
    using v0 by (simp_all only: opcode_D001)
  have off: "pixels sprite_machine ! (0 mod WIDTH) ! (0 mod HEIGHT) = 0"
    by (simp add: sprite_machine_fields WIDTH_def HEIGHT_def)
  have msb: "bit (mem sprite_machine ! 0) (7 - 0)"
    by (simp add: sprite_machine_fields)
  obtain s2 where run2: "decode_instruction False 0 [0xD0, 0x01] s1 = Inr s2"
    and px: "pixels s2 = pixels sprite_machine"
    and vf: "v_reg s2 ! 0x0F = (if \<exists>row<unat ((0x01::u8) AND 0x0F). \<exists>col<8.
             bit (mem sprite_machine ! (unat (i_addr_reg sprite_machine) + row)) (7 - col) \<and>
             pixels sprite_machine ! ((col + unat (v_reg sprite_machine ! unat ((0xD0::u8) AND 0x0F))) mod WIDTH) !
                ((row + unat (v_reg sprite_machine ! unat (drop_bit 4 (0x01::u8)))) mod HEIGHT) = 0
        then 1 else 0)"
    using draw_twice[OF sprite_machine_wf opcode_D001(1) inb run1 v0'] by blast
  have "\<exists>row<unat ((0x01::u8) AND 0x0F). \<exists>col<8.
             bit (mem sprite_machine ! (unat (i_addr_reg sprite_machine) + row)) (7 - col) \<and>
             pixels sprite_machine ! ((col + unat (v_reg sprite_machine ! unat ((0xD0::u8) AND 0x0F))) mod WIDTH) !
                ((row + unat (v_reg sprite_machine ! unat (drop_bit 4 (0x01::u8)))) mod HEIGHT) = 0"
    using off msb
    by (intro exI[of _ 0] conjI) (simp_all add: sprite_machine_fields)
  with vf have "v_reg s2 ! 0x0F = 1" by simp
  with run1 run2 px show ?thesis by blast
qed

text \<open>
  The claim's second half fails where every set bit of the sprite lies on a lit pixel: on
  the lit machine the first draw turns the pixel off and the second turns it on again, so
  no pixel goes from on to off in the second draw and VF ends as 0.
\<close>

theorem draw_twice_counterexample:
  "\<exists>s1 s2. decode_instruction False 0 [0xD0, 0x01] lit_machine = Inr s1 \<and>
     v_reg s1 ! 0 = v_reg lit_machine ! 0 \<and>
     decode_instruction False 0 [0xD0, 0x01] s1 = Inr s2 \<and>
     v_reg s2 ! 0x0F = 0"
proof -
  have inb: "unat (i_addr_reg lit_machine) + unat ((0x01::u8) AND 0x0F) \<le> 4096"
    by (simp add: lit_machine_fields)
  obtain s1 where run1: "decode_instruction False 0 [0xD0, 0x01] lit_machine = Inr s1"
    and v0: "v_reg s1 ! 0 = v_reg lit_machine ! 0"
    using first_draw[OF lit_machine_wf inb] by blast
  have v0': "v_reg s1 ! unat ((0xD0::u8) AND 0x0F) = v_reg lit_machine ! unat ((0xD0::u8) AND 0x0F)"
    "v_reg s1 ! unat (drop_bit 4 (0x01::u8)) = v_reg lit_machine ! unat (drop_bit 4 (0x01::u8))"
    using v0 by (simp_all only: opcode_D001)
  have on: "pixels lit_machine ! (c mod WIDTH) ! (r mod HEIGHT) \<noteq> 0" for c r
    by (simp add: lit_machine_fields WIDTH_def HEIGHT_def)
  obtain s2 where run2: "decode_instruction False 0 [0xD0, 0x01] s1 = Inr s2"
    and "v_reg s2 ! 0x0F = (if \<exists>row<unat ((0x01::u8) AND 0x0F). \<exists>col<8.
             bit (mem lit_machine ! (unat (i_addr_reg lit_machine) + row)) (7 - col) \<and>
             pixels lit_machine ! ((col + unat (v_reg lit_machine ! unat ((0xD0::u8) AND 0x0F))) mod WIDTH) !
                ((row + unat (v_reg lit_machine ! unat (drop_bit 4 (0x01::u8)))) mod HEIGHT) = 0
        then 1 else 0)"
    using draw_again[OF lit_machine_wf opcode_D001(1) inb run1 v0'] by blast
  then have "v_reg s2 ! 0x0F = 0" using on by simp
  with run1 v0 run2 show ?thesis by blast
qed

text \<open>
  C7, as the code has it. \<^verbatim>\<open>read_program_to_mem\<close> reports failure exactly when the
  file cannot be opened and the machine is then untouched; it has no size check, and an
  input of at most \<open>4096 - 0x200\<close> bytes is loaded and reported as success.
\<close>

theorem load_has_no_size_check:
  "(read_program_to_mem file s = Inr (False, s') \<longleftrightarrow> file = None \<and> s' = s) \<and>
   (length bytes \<le> 4096 - 0x200 \<longrightarrow> (\<exists>t. read_program_to_mem (Some bytes) s = Inr (True, t)))"
proof -
  have a: "read_program_to_mem (Some bs) s \<noteq> Inr (False, s')" for bs
    unfolding load_some by simp
  have b: "read_program_to_mem None s = Inr (False, s)"
    by (simp add: read_program_to_mem_def)
  have c: "\<exists>t. read_program_to_mem (Some bytes) s = Inr (True, t)" if "length bytes \<le> 4096 - 0x200"
  proof -
    from that have "length bytes mod 65536 = length bytes" by simp
    with that show ?thesis unfolding load_some by simp
  qed
  have "(read_program_to_mem file s = Inr (False, s')) = (file = None \<and> s' = s)"
    using a b by (cases "file") auto
  with a c show ?thesis by blast
qed

theorem load_has_no_size_check_witness:
  "map_sum id fst (read_program_to_mem (Some [0x12, 0x00]) fresh_chip8) = Inr True \<and>
   read_program_to_mem None fresh_chip8 = Inr (False, fresh_chip8)"
proof -
  have "length [0x12, 0x00 :: u8] \<le> 4096 - 0x200" by simp
  then obtain t where "read_program_to_mem (Some [0x12, 0x00]) fresh_chip8 = Inr (True, t)"
    using load_has_no_size_check[of "Some [0x12, 0x00]" fresh_chip8 fresh_chip8 "[0x12, 0x00]"]
    by blast
  moreover have "read_program_to_mem None fresh_chip8 = Inr (False, fresh_chip8)"
    using load_has_no_size_check[of None fresh_chip8 fresh_chip8 "[]"] by simp
  ultimately show ?thesis by simp
qed

text \<open>
  An input of 3585 bytes is copied past the end of \<open>mem\<close>, and one of 65536 bytes, whose
  length is 0 in the \<^verbatim>\<open>u16\<close> \<open>program_size\<close>, is reported as loaded.
\<close>

theorem load_has_no_size_check_counterexample:
  "read_program_to_mem (Some (replicate 3585 0)) fresh_chip8 = Inl Undefined_Behaviour \<and>
   map_sum id fst (read_program_to_mem (Some (replicate 65536 0)) fresh_chip8) = Inr True"
  unfolding load_some by simp

text \<open>
  C8, as the code has it. For \<open>mem\<close> of its declared extent and an input of at most
  \<open>4096 - 0x200\<close> bytes the load succeeds: the bytes lie at \<open>0x200\<close> onwards, the font
  table at 0 to 79, the rest of memory is as before, PC is \<open>0x200\<close>, \<open>program_size\<close>
  is the length, and the cycle count, the registers, I, the timers, the stack, the stack
  pointer, the framebuffer and the keys are unchanged.
\<close>

theorem load_effect:
  assumes "length (mem s) = 4096" and "length bytes \<le> 4096 - 0x200"
  shows "\<exists>s'. read_program_to_mem (Some bytes) s = Inr (True, s') \<and>
     (\<forall>k<length bytes. mem s' ! (0x200 + k) = bytes ! k) \<and>
     (\<forall>k<80. mem s' ! k = fonts ! k) \<and>
     (\<forall>a<4096. (80 \<le> a \<and> a < 0x200) \<or> 0x200 + length bytes \<le> a \<longrightarrow> mem s' ! a = mem s ! a) \<and>
     length (mem s') = 4096 \<and>
     pc s' = 0x200 \<and> unat (program_size s') = length bytes \<and>
     cycle_count s' = cycle_count s \<and>
     v_reg s' = v_reg s \<and> delay_timer s' = delay_timer s \<and> sound_timer s' = sound_timer s \<and>
     stack s' = stack s \<and> sp s' = sp s \<and> pixels s' = pixels s \<and> keys s' = keys s \<and>
     i_addr_reg s' = i_addr_reg s"
proof -
  define pre where "pre = fonts @ take 432 (drop 80 (mem s))"
  define post where "post = drop (0x200 + length bytes) (mem s)"
  have l1: "length pre = 0x200"
    using assms(1) by (simp add: pre_def length_fonts)
  have run: "read_program_to_mem (Some bytes) s =
     Inr (True, s\<lparr>mem := pre @ bytes @ post, program_size := of_nat (length bytes), pc := 0x200\<rparr>)"
    unfolding load_small[OF assms] pre_def post_def by simp
  have p1: "(pre @ bytes @ post) ! (0x200 + k) = bytes ! k" if "k < length bytes" for k
    using that nth_append_length_plus[of pre "bytes @ post" k] by (simp add: l1 nth_append)
  have p2: "(pre @ bytes @ post) ! k = fonts ! k" if "k < 80" for k
    using that by (simp add: nth_append l1) (simp add: pre_def nth_append length_fonts)
  have p3: "(pre @ bytes @ post) ! a = mem s ! a"
    if "a < 4096" "(80 \<le> a \<and> a < 0x200) \<or> 0x200 + length bytes \<le> a" for a
  proof (cases "a < 0x200")
    case True
    with that have "80 \<le> a" by auto
    with True have "(pre @ bytes @ post) ! a = pre ! a" by (simp add: nth_append l1)
    also have "\<dots> = mem s ! a"
      using True \<open>80 \<le> a\<close> assms(1) by (simp add: pre_def nth_append length_fonts)
    finally show ?thesis .
  next
    case False
    with that have le: "0x200 + length bytes \<le> a" by auto
    then have "\<not> a < 0x200" "\<not> a - 0x200 < length bytes" by arith+
    then have "(pre @ bytes @ post) ! a = post ! (a - 0x200 - length bytes)"
      by (simp add: nth_append l1)
    also have "\<dots> = mem s ! a"
      using le that(1) assms(1) by (simp add: post_def)
    finally show ?thesis .
  qed
  have p4: "length (pre @ bytes @ post) = 4096"
    using assms by (simp add: l1 post_def)
  have p5: "unat (of_nat (length bytes) :: u16) = length bytes"
    using assms(2) by (simp add: unat_of_nat)
  show ?thesis
    unfolding run using p1 p2 p3 p4 p5 by simp
qed

theorem load_effect_witness:
  "\<exists>s'. read_program_to_mem (Some [0x12, 0x00]) fresh_chip8 = Inr (True, s') \<and>
     mem s' ! 0x200 = 0x12 \<and> mem s' ! 0x201 = 0x00 \<and> mem s' ! 0 = 0xF0 \<and>
     pc s' = 0x200 \<and> program_size s' = 2 \<and> cycle_count s' = 0 \<and> v_reg s' = replicate 16 0"
proof -
  have l: "length (mem fresh_chip8) = 4096" by (simp add: fresh_fields)
  have n: "length [0x12, 0x00 :: u8] \<le> 4096 - 0x200" by simp
  obtain s' where run: "read_program_to_mem (Some [0x12, 0x00]) fresh_chip8 = Inr (True, s')"
    and prog: "\<forall>k<length [0x12, 0x00 :: u8]. mem s' ! (0x200 + k) = [0x12, 0x00] ! k"
    and font: "\<forall>k<80. mem s' ! k = fonts ! k"
    and pc: "pc s' = 0x200" and size: "unat (program_size s') = length [0x12, 0x00 :: u8]"
    and cc: "cycle_count s' = cycle_count fresh_chip8" and regs: "v_reg s' = v_reg fresh_chip8"
    using load_effect[OF l n] by blast
  have "mem s' ! 0x200 = 0x12" using prog[rule_format, of 0] by simp
  moreover have "mem s' ! 0x201 = 0x00" using prog[rule_format, of 1] by simp
  moreover have "mem s' ! 0 = 0xF0" using font[rule_format, of 0] by (simp add: fonts_def)
  moreover from size have "of_nat (unat (program_size s')) = (of_nat 2 :: u16)" by simp
  then have "program_size s' = 2" by simp
  moreover have "cycle_count s' = 0" using cc by (simp add: fresh_fields)
  moreover have "v_reg s' = replicate 16 0" using regs by (simp add: fresh_fields)
  ultimately show ?thesis using run pc by blast
qed

text \<open>
  The cycle count is not reset: a machine that has counted 5 cycles still has 5 after a
  load.
\<close>

theorem load_effect_counterexample:
  "map_sum id (cycle_count \<circ> snd)
     (read_program_to_mem (Some [0x12, 0x00]) (fresh_chip8\<lparr>cycle_count := 5\<rparr>)) = Inr 5"
  unfolding load_some by simp

text \<open>
  C9, as the code has it. A step is a function of the machine state and of the value
  \<^verbatim>\<open>rand()\<close> returns: two steps from the same state agree whenever the opcode at PC is
  not CXNN, or the two values of \<^verbatim>\<open>rand()\<close> agree modulo 256.
\<close>

theorem rand_is_the_only_input:
  assumes "\<forall>opcode1 opcode2 rest. drop (unat (pc s)) (mem s) = opcode1 # opcode2 # rest \<longrightarrow>
             drop_bit 4 opcode1 \<noteq> 0x0C \<or> r1 mod 256 = r2 mod 256"
  shows "execute_cycle debug_mode r1 s = execute_cycle debug_mode r2 s"
  using decode_rand_indep[OF assms] by (simp add: execute_cycle_def)

theorem rand_is_the_only_input_witness:
  "execute_cycle False 0 rand_machine = execute_cycle False 256 rand_machine \<and>
   execute_cycle False 3 skip_machine = execute_cycle False 4 skip_machine"
proof -
  have "execute_cycle False 0 rand_machine = execute_cycle False 256 rand_machine"
    by (rule rand_is_the_only_input) simp
  moreover have "drop (unat (pc skip_machine)) (mem skip_machine) = 0x50 # 0x01 # drop 0x202 (mem skip_machine)"
    by (rule fetch_0x200) (simp_all add: skip_machine_def fresh_fields)
  then have "execute_cycle False 3 skip_machine = execute_cycle False 4 skip_machine"
    by (intro rand_is_the_only_input) simp
  ultimately show ?thesis by simp
qed

text \<open>
  On CXNN two steps from the same machine state differ when \<^verbatim>\<open>rand()\<close> does.
\<close>

theorem rand_is_the_only_input_counterexample:
  "execute_cycle False 0 rand_machine \<noteq> execute_cycle False 1 rand_machine"
proof
  assume "execute_cycle False 0 rand_machine = execute_cycle False 1 rand_machine"
  then have "map_sum id (\<lambda>r. v_reg (fst r) ! 0) (execute_cycle False 0 rand_machine) =
      map_sum id (\<lambda>r. v_reg (fst r) ! 0) (execute_cycle False 1 rand_machine)"
    by (rule arg_cong)
  then show False
    unfolding rand_machine_step by (simp add: rand_machine_def fresh_fields)
qed

text \<open>
  C10. Under the hypotheses of C2, DXYN returns with PC advanced by 2; memory, I, V0 to
  VE, both timers, the stack, the stack pointer, the key buffer, the program size and
  the cycle count are as before, and so is every pixel that is not
  \<open>((col + Vx) mod 64, (row + Vy) mod 32)\<close> for a row below \<open>n\<close> and a column below 8.
\<close>

theorem draw_frame:
  fixes s :: chip8 and opcode1 opcode2 :: u8
  assumes "chip8_wf s" and "drop_bit 4 opcode1 = 0x0D"
    and "unat (i_addr_reg s) + unat (opcode2 AND 0x0F) \<le> 4096"
  defines "x \<equiv> unat (v_reg s ! unat (opcode1 AND 0x0F))"
    and "y \<equiv> unat (v_reg s ! unat (drop_bit 4 opcode2))"
    and "n \<equiv> unat (opcode2 AND 0x0F)"
  shows "\<exists>s'. decode_instruction debug_mode rand_value (opcode1 # opcode2 # rest) s = Inr s' \<and>
     pc s' = pc s + 2 \<and>
     mem s' = mem s \<and> i_addr_reg s' = i_addr_reg s \<and>
     (\<forall>k<15. v_reg s' ! k = v_reg s ! k) \<and>
     delay_timer s' = delay_timer s \<and> sound_timer s' = sound_timer s \<and>
     stack s' = stack s \<and> sp s' = sp s \<and> keys s' = keys s \<and>
     program_size s' = program_size s \<and> cycle_count s' = cycle_count s \<and>
     (\<forall>c<WIDTH. \<forall>r<HEIGHT.
        (\<forall>row<n. \<forall>col<8. c \<noteq> (col + x) mod WIDTH \<or> r \<noteq> (row + y) mod HEIGHT) \<longrightarrow>
        pixels s' ! c ! r = pixels s ! c ! r) \<and>
     chip8_wf s'"
proof -
  let ?vx = "v_reg s ! unat (opcode1 AND 0x0F)"
  let ?vy = "v_reg s ! unat (drop_bit 4 opcode2)"
  let ?ps = "List.product [0..<n] [0..<8]"
  let ?bits = "row_bits (mem s) (unat (i_addr_reg s))"
  obtain s' where run: "draw opcode1 opcode2 s = Inr s'"
    and fr: "rest_of s' = rest_of (s\<lparr>pc := pc s + 2\<rparr>)"
    and g: "grid_ok (pixels s')"
    and miss: "\<forall>q. fst q < WIDTH \<and> snd q < HEIGHT \<and> q \<notin> target ?vx ?vy ` set ?ps \<longrightarrow>
        pixel_at s' q = pixel_at s q"
    and vf: "v_reg s' = (v_reg s)[0x0F :=
        if \<exists>p \<in> set ?ps. pixel_at s (target ?vx ?vy p) = 1 \<and> drop_bit 7 (?bits p) = 1
        then 1 else 0]"
    using draw_effect[OF assms(1,3), of opcode1] unfolding n_def by blast
  note f = rest_of_fields[OF fr]
  have regs: "v_reg s' ! k = v_reg s ! k" if "k < 15" for k
    using that unfolding vf by simp
  have px: "pixels s' ! c ! r = pixels s ! c ! r"
    if "c < WIDTH" "r < HEIGHT"
      "\<forall>row<n. \<forall>col<8. c \<noteq> (col + x) mod WIDTH \<or> r \<noteq> (row + y) mod HEIGHT" for c r
  proof -
    from that(3) have "(c, r) \<notin> target ?vx ?vy ` set ?ps"
      unfolding not_in_footprint x_def y_def by simp
    with that(1,2) miss have "pixel_at s' (c, r) = pixel_at s (c, r)" by simp
    then show ?thesis by (simp add: pixel_at_def)
  qed
  have wf: "chip8_wf s'"
    using assms(1) g f unfolding vf chip8_wf_def grid_ok_def by simp
  from run f regs px wf assms(2) show ?thesis by (simp add: decode_draw)
qed

theorem draw_frame_witness:
  "\<exists>s'. decode_instruction False 0 [0xD0, 0x01] sprite_machine = Inr s' \<and>
     pc s' = 0x202 \<and> mem s' = mem sprite_machine \<and> v_reg s' ! 0 = 0 \<and>
     pixels s' ! 8 ! 0 = 0 \<and> pixels s' ! 0 ! 1 = 0 \<and> chip8_wf s'"
proof -
  have inb: "unat (i_addr_reg sprite_machine) + unat ((0x01::u8) AND 0x0F) \<le> 4096"
    by (simp add: sprite_machine_fields)
  obtain s' where run: "decode_instruction False 0 [0xD0, 0x01] sprite_machine = Inr s'"
    and pc: "pc s' = pc sprite_machine + 2"
    and m: "mem s' = mem sprite_machine"
    and regs: "\<forall>k<15. v_reg s' ! k = v_reg sprite_machine ! k"
    and px: "\<forall>c<WIDTH. \<forall>r<HEIGHT.
        (\<forall>row<unat ((0x01::u8) AND 0x0F). \<forall>col<8.
            c \<noteq> (col + unat (v_reg sprite_machine ! unat ((0xD0::u8) AND 0x0F))) mod WIDTH \<or>
            r \<noteq> (row + unat (v_reg sprite_machine ! unat (drop_bit 4 (0x01::u8)))) mod HEIGHT) \<longrightarrow>
        pixels s' ! c ! r = pixels sprite_machine ! c ! r"
    and wf: "chip8_wf s'"
    using draw_frame[OF sprite_machine_wf opcode_D001(1) inb, of False 0 "[]"] by blast
  have "pc s' = 0x202" using pc by (simp add: sprite_machine_fields)
  moreover have "v_reg s' ! 0 = 0" using regs[rule_format, of 0] by (simp add: sprite_machine_fields)
  moreover have "pixels s' ! 8 ! 0 = 0"
    using px[rule_format, of 8 0] by (simp add: sprite_machine_fields WIDTH_def HEIGHT_def)
  moreover have "pixels s' ! 0 ! 1 = 0"
    using px[rule_format, of 0 1] by (simp add: sprite_machine_fields WIDTH_def HEIGHT_def)
  ultimately show ?thesis using run m wf by blast
qed

end
